theory Spec2Isabelle
  imports Complex_Main "HOL-Library.Sublist" "HOL-Library.Word" "HOL-Library.Log_Nat"
begin

section \<open>JavaScript values used by the validator\<close>

text \<open>
  File names, MIME types and message texts are JavaScript strings. They are modelled as
  \<^typ>\<open>string\<close>, a \<^typ>\<open>char\<close> standing for the UTF-16 code unit of the same number, so
  the model covers the strings whose code units are below 256 (Latin-1), and on those
  \<open>toLowerCase\<close> below is the mapping of \<open>String.prototype.toLowerCase\<close>:
  \<open>A\<close>--\<open>Z\<close> and U+00C0--U+00DE without U+00D7 move up by 32, every other code unit of that
  range is its own lower case.
\<close>

definition toLowerCase_char :: "char \<Rightarrow> char" where
  "toLowerCase_char c =
     (let n = (of_char c :: nat)
      in if (65 \<le> n \<and> n \<le> 90) \<or> (192 \<le> n \<and> n \<le> 222 \<and> n \<noteq> 215)
         then char_of (n + 32) else c)"

definition toLowerCase :: "string \<Rightarrow> string" where
  "toLowerCase s = map toLowerCase_char s"

text \<open>
  \<open>toUpperCase\<close> is applied by the source to one string only, the hexadecimal rendering of
  the first bytes of a file (digits and \<open>a\<close>--\<open>f\<close>); the model maps \<open>a\<close>--\<open>z\<close> down by 32 and
  leaves every other character alone, which is \<open>String.prototype.toUpperCase\<close> on ASCII.
\<close>

definition toUpperCase_char :: "char \<Rightarrow> char" where
  "toUpperCase_char c =
     (let n = (of_char c :: nat)
      in if 97 \<le> n \<and> n \<le> 122 then char_of (n - 32) else c)"

definition toUpperCase :: "string \<Rightarrow> string" where
  "toUpperCase s = map toUpperCase_char s"

text \<open>\<open>s.split(sep)\<close> for a one-character separator: never empty, \<open>''''.split('.')\<close> is \<open>['''']\<close>.\<close>

fun split :: "char \<Rightarrow> string \<Rightarrow> string list" where
  "split sep [] = [[]]"
| "split sep (c # cs) =
     (if c = sep then [] # split sep cs
      else (case split sep cs of
              [] \<Rightarrow> [[c]]
            | s # ss \<Rightarrow> (c # s) # ss))"

text \<open>\<open>Array.prototype.pop\<close> returns the last element (the array is never empty here).\<close>

definition pop :: "'a list \<Rightarrow> 'a" where
  "pop xs = last xs"

text \<open>\<open>String.prototype.includes\<close>: the search string occurs at some position.\<close>

fun includes_js :: "'a list \<Rightarrow> 'a list \<Rightarrow> bool" where
  "includes_js [] s = (s = [])"
| "includes_js (x # xs) s = (prefix s (x # xs) \<or> includes_js xs s)"

definition startsWith :: "'a list \<Rightarrow> 'a list \<Rightarrow> bool" where
  "startsWith s p = prefix p s"

definition endsWith :: "'a list \<Rightarrow> 'a list \<Rightarrow> bool" where
  "endsWith s p = suffix p s"

text \<open>
  \<open>Number.prototype.toString(radix)\<close> on a non-negative integer, for the radixes the source
  uses, 16 and 10 (\<open>digitChar\<close> has the sixteen digits).
\<close>

definition digitChar :: "nat \<Rightarrow> char" where
  "digitChar d = ''0123456789abcdef'' ! d"

function toStringRadix :: "nat \<Rightarrow> nat \<Rightarrow> string" where
  "toStringRadix r n =
     (if r < 2 \<or> n < r then [digitChar n]
      else toStringRadix r (n div r) @ [digitChar (n mod r)])"
  by pat_completeness auto
termination
  by (relation "measure (\<lambda>(r, n). n)") auto

definition padStart :: "nat \<Rightarrow> char \<Rightarrow> string \<Rightarrow> string" where
  "padStart n c s = replicate (n - length s) c @ s"

section \<open>Candidate files\<close>

text \<open>
  A \<open>File\<close> is an immutable byte blob with a declared name and a declared MIME type; its
  \<open>size\<close> is the number of its bytes. \<open>slice(start, stop)\<close> is the blob of the bytes from
  \<open>start\<close> up to \<open>stop\<close>, cut at the end of the file.
\<close>

record File =
  name :: string
  type :: string
  bytes :: "8 word list"

definition size_File :: "File \<Rightarrow> nat" where
  "size_File f = length (bytes f)"

definition slice_blob :: "nat \<Rightarrow> nat \<Rightarrow> 8 word list \<Rightarrow> 8 word list" where
  "slice_blob start stop bs = take (stop - start) (drop start bs)"

section \<open>FileValidator\<close>

record allowedTypes_obj =
  pdf :: "string list"
  images :: "string list"
  office :: "string list"

record config =
  maxSize :: nat
  allowedTypes :: allowedTypes_obj
  scanForMalware_cfg :: bool
  validateMagicNumbers_cfg :: bool

text \<open>The constructor of \<open>FileValidator\<close>: the configuration every instance starts with.\<close>

definition FileValidator :: config where
  "FileValidator =
     \<lparr> maxSize = 100 * 1024 * 1024,
       allowedTypes =
         \<lparr> pdf = [''application/pdf''],
           images = [''image/jpeg'', ''image/jpg'', ''image/png'', ''image/svg+xml'', ''image/tiff''],
           office =
             [''application/msword'',
              ''application/vnd.openxmlformats-officedocument.wordprocessingml.document'',
              ''application/vnd.ms-excel'',
              ''application/vnd.openxmlformats-officedocument.spreadsheetml.sheet'',
              ''application/vnd.ms-powerpoint'',
              ''application/vnd.openxmlformats-officedocument.presentationml.presentation''] \<rparr>,
       scanForMalware_cfg = True,
       validateMagicNumbers_cfg = True \<rparr>"

definition allowedExtensions :: "string list" where
  "allowedExtensions =
     [''pdf'', ''jpg'', ''jpeg'', ''png'', ''svg'', ''tiff'',
      ''doc'', ''docx'', ''xls'', ''xlsx'', ''ppt'', ''pptx'']"

definition isAllowedExtension :: "string \<Rightarrow> bool" where
  "isAllowedExtension filename =
     (let ext = pop (split CHR ''.'' (toLowerCase filename))
      in ext \<in> set allowedExtensions)"

text \<open>\<open>Object.values(this.config.allowedTypes).flat()\<close>: the three lists in insertion order.\<close>

definition isAllowedMimeType :: "config \<Rightarrow> string \<Rightarrow> bool" where
  "isAllowedMimeType cfg mimeType =
     (let allAllowedTypes =
            concat [pdf (allowedTypes cfg), images (allowedTypes cfg), office (allowedTypes cfg)]
      in mimeType \<in> set allAllowedTypes)"

text \<open>
  \<open>validateMagicNumbers\<close> reads \<open>file.slice(0, 8)\<close>, keeps the first four bytes, writes each
  as two hexadecimal digits, joins and upper-cases them, and asks whether the result starts
  with one of the keys of the signature table.
\<close>

definition magicNumbers :: "(string \<times> string) list" where
  "magicNumbers =
     [(''25504446'', ''pdf''),
      (''FFD8FF'', ''jpg''),
      (''89504E47'', ''png''),
      (''3C737667'', ''svg''),
      (''D0CF11E0'', ''doc/xls/ppt''),
      (''504B0304'', ''docx/xlsx/pptx'')]"

definition validateMagicNumbers :: "File \<Rightarrow> bool" where
  "validateMagicNumbers f =
     (let arr = take 4 (slice_blob 0 8 (bytes f));
          header = toUpperCase (concat (map (\<lambda>b. padStart 2 CHR ''0'' (toStringRadix 16 (unat b))) arr))
      in \<exists>magic \<in> set (map fst magicNumbers). startsWith header magic)"

section \<open>XSSProtection\<close>

definition dangerousExtensions :: "string list" where
  "dangerousExtensions =
     [''.exe'', ''.bat'', ''.cmd'', ''.sh'', ''.php'', ''.js'', ''.html'',
      ''.htm'', ''.vbs'', ''.ps1'', ''.jar'', ''.py'']"

definition XSSProtection_validateFile :: "File \<Rightarrow> bool" where
  "XSSProtection_validateFile f =
     (let fileName = toLowerCase (name f)
      in \<not> (\<exists>ext \<in> set dangerousExtensions. endsWith fileName ext))"

section \<open>Reading a blob as text\<close>

text \<open>
  \<open>FileReader.readAsText(blob)\<close> with no encoding argument, on a blob whose type is empty
  (as that of \<open>file.slice(0, n)\<close> is), decodes the bytes as the Encoding Standard's
  \<open>decode\<close> does with UTF-8 as the fallback: a leading byte order mark selects UTF-8,
  UTF-16BE or UTF-16LE and is dropped; malformed input gives U+FFFD, never an error. The
  result is a JavaScript string, here the list of its UTF-16 code units. Reading a blob that
  is already in memory does not fail, so the promise of the source always resolves.
\<close>

type_synonym codeunits = "nat list"

definition str :: "string \<Rightarrow> codeunits" where
  "str s = map of_char s"

text \<open>
  The UTF-8 decoder, one scalar value or one U+FFFD per step. A byte that cannot continue
  the sequence in progress ends it with U+FFFD and is then decoded again as a first byte.
\<close>

fun utf8_decode :: "nat list \<Rightarrow> nat list" where
  "utf8_decode [] = []"
| "utf8_decode (b # bs) =
     (if b < 0x80 then b # utf8_decode bs
      else if 0xC2 \<le> b \<and> b \<le> 0xDF then
        (case bs of
           [] \<Rightarrow> [0xFFFD]
         | c1 # r1 \<Rightarrow>
             if 0x80 \<le> c1 \<and> c1 \<le> 0xBF
             then ((b mod 32) * 64 + c1 mod 64) # utf8_decode r1
             else 0xFFFD # utf8_decode bs)
      else if 0xE0 \<le> b \<and> b \<le> 0xEF then
        (case bs of
           [] \<Rightarrow> [0xFFFD]
         | c1 # r1 \<Rightarrow>
             if (if b = 0xE0 then 0xA0 else 0x80) \<le> c1 \<and> c1 \<le> (if b = 0xED then 0x9F else 0xBF)
             then (case r1 of
                     [] \<Rightarrow> [0xFFFD]
                   | c2 # r2 \<Rightarrow>
                       if 0x80 \<le> c2 \<and> c2 \<le> 0xBF
                       then (((b mod 16) * 64 + c1 mod 64) * 64 + c2 mod 64) # utf8_decode r2
                       else 0xFFFD # utf8_decode r1)
             else 0xFFFD # utf8_decode bs)
      else if 0xF0 \<le> b \<and> b \<le> 0xF4 then
        (case bs of
           [] \<Rightarrow> [0xFFFD]
         | c1 # r1 \<Rightarrow>
             if (if b = 0xF0 then 0x90 else 0x80) \<le> c1 \<and> c1 \<le> (if b = 0xF4 then 0x8F else 0xBF)
             then (case r1 of
                     [] \<Rightarrow> [0xFFFD]
                   | c2 # r2 \<Rightarrow>
                       if 0x80 \<le> c2 \<and> c2 \<le> 0xBF
                       then (case r2 of
                               [] \<Rightarrow> [0xFFFD]
                             | c3 # r3 \<Rightarrow>
                                 if 0x80 \<le> c3 \<and> c3 \<le> 0xBF
                                 then ((((b mod 8) * 64 + c1 mod 64) * 64 + c2 mod 64) * 64 + c3 mod 64)
                                        # utf8_decode r3
                                 else 0xFFFD # utf8_decode r2)
                       else 0xFFFD # utf8_decode r1)
             else 0xFFFD # utf8_decode bs)
      else 0xFFFD # utf8_decode bs)"

text \<open>
  The UTF-16 decoder: two bytes make a code unit, a surrogate pair makes one scalar value,
  a surrogate without its partner and a single byte left at the end give U+FFFD.
\<close>

definition utf16_unit :: "bool \<Rightarrow> nat \<Rightarrow> nat \<Rightarrow> nat" where
  "utf16_unit be b1 b2 = (if be then b1 * 256 + b2 else b2 * 256 + b1)"

fun utf16_decode :: "bool \<Rightarrow> nat list \<Rightarrow> nat list" where
  "utf16_decode be [] = []"
| "utf16_decode be [b] = [0xFFFD]"
| "utf16_decode be (b1 # b2 # bs) =
     (let u = utf16_unit be b1 b2
      in if 0xD800 \<le> u \<and> u \<le> 0xDBFF then
           (case bs of
              [] \<Rightarrow> [0xFFFD]
            | [c] \<Rightarrow> [0xFFFD]
            | c1 # c2 # cs \<Rightarrow>
                (let v = utf16_unit be c1 c2
                 in if 0xDC00 \<le> v \<and> v \<le> 0xDFFF
                    then (0x10000 + (u - 0xD800) * 0x400 + (v - 0xDC00)) # utf16_decode be cs
                    else 0xFFFD # utf16_decode be bs))
         else if 0xDC00 \<le> u \<and> u \<le> 0xDFFF then 0xFFFD # utf16_decode be bs
         else u # utf16_decode be bs)"

text \<open>A scalar value as UTF-16 code units: itself, or a surrogate pair from U+10000 on.\<close>

definition codeUnitsOf :: "nat \<Rightarrow> codeunits" where
  "codeUnitsOf cp =
     (if cp < 0x10000 then [cp]
      else [0xD800 + (cp - 0x10000) div 0x400, 0xDC00 + (cp - 0x10000) mod 0x400])"

definition decode :: "nat list \<Rightarrow> nat list" where
  "decode bs =
     (if take 3 bs = [0xEF, 0xBB, 0xBF] then utf8_decode (drop 3 bs)
      else if take 2 bs = [0xFE, 0xFF] then utf16_decode True (drop 2 bs)
      else if take 2 bs = [0xFF, 0xFE] then utf16_decode False (drop 2 bs)
      else utf8_decode bs)"

definition readAsText :: "8 word list \<Rightarrow> codeunits" where
  "readAsText blob = concat (map codeUnitsOf (decode (map unat blob)))"

section \<open>The regular expressions of the PDF scan\<close>

text \<open>
  A regular expression is embedded as a backtracking matcher: it maps the text at the
  current position to the texts left after each way of matching there, the preferred way
  first. \<open>lit_i\<close> is a literal under the \<open>i\<close> flag, \<open>star_class\<close> a greedy \<open>*\<close> over a
  character class, \<open>seq\<close> is concatenation, and \<open>regex_test\<close> is \<open>RegExp.prototype.test\<close> of
  a fresh expression without the \<open>g\<close> flag: a match starting at some position.

  Under the \<open>i\<close> flag (no \<open>u\<close> flag) two code units match when they have the same
  canonical form. For a code unit below 128 that is its ASCII upper case, and a code unit
  from 128 on never has a canonical form below 128; the patterns of the source are ASCII, so
  leaving the code units from 128 on as they are decides every comparison as the
  source does.
\<close>

type_synonym matcher = "codeunits \<Rightarrow> codeunits list"

definition canonicalize :: "nat \<Rightarrow> nat" where
  "canonicalize c = (if 97 \<le> c \<and> c \<le> 122 then c - 32 else c)"

definition lit_i :: "string \<Rightarrow> matcher" where
  "lit_i s t =
     (if length (str s) \<le> length t
         \<and> map canonicalize (take (length (str s)) t) = map canonicalize (str s)
      then [drop (length (str s)) t] else [])"

fun star_class :: "(nat \<Rightarrow> bool) \<Rightarrow> matcher" where
  "star_class P [] = [[]]"
| "star_class P (c # cs) = (if P c then star_class P cs @ [c # cs] else [c # cs])"

definition seq :: "matcher \<Rightarrow> matcher \<Rightarrow> matcher" where
  "seq m1 m2 t = concat (map m2 (m1 t))"

fun regex_test :: "matcher \<Rightarrow> codeunits \<Rightarrow> bool" where
  "regex_test m [] = (m [] \<noteq> [])"
| "regex_test m (c # cs) = (m (c # cs) \<noteq> [] \<or> regex_test m cs)"

text \<open>
  The class \<open>\s\<close>: the white space and line terminator code units of ECMAScript.
\<close>

definition isWhiteSpace :: "nat \<Rightarrow> bool" where
  "isWhiteSpace c =
     (c \<in> {0x09, 0x0A, 0x0B, 0x0C, 0x0D, 0x20, 0xA0, 0x1680, 0x2028, 0x2029, 0x202F, 0x205F,
            0x3000, 0xFEFF}
      \<or> (0x2000 \<le> c \<and> c \<le> 0x200A))"

definition re_JavaScript :: matcher where
  "re_JavaScript = seq (lit_i ''/JavaScript'') (seq (star_class isWhiteSpace) (lit_i ''/''))"

definition re_JS :: matcher where
  "re_JS = seq (lit_i ''/JS'') (seq (star_class isWhiteSpace) (lit_i ''/''))"

definition re_AA :: matcher where
  "re_AA = seq (lit_i ''/AA'') (seq (star_class isWhiteSpace) (lit_i ''/''))"

section \<open>The content scan\<close>

definition scanPDF :: "File \<Rightarrow> bool" where
  "scanPDF f =
     (let content = readAsText (slice_blob 0 (1024 * 100) (bytes f));
          hasPDFHeader = includes_js content (str ''%PDF'');
          hasPDFFooter = includes_js content (str ''%%EOF'');
          hasJS = (regex_test re_JavaScript content
                   \<or> regex_test re_JS content
                   \<or> regex_test re_AA content)
      in hasPDFHeader \<and> hasPDFFooter \<and> \<not> hasJS)"

definition scanForMalware :: "File \<Rightarrow> bool" where
  "scanForMalware f = (if type f = ''application/pdf'' then scanPDF f else True)"

section \<open>JavaScript numbers\<close>

text \<open>
  A JavaScript number is an IEEE 754 double. The numbers the size message, the converter and
  the memory monitor compute are zero or positive and far from overflow and underflow, so a
  double is modelled as the real number it denotes
  and an arithmetic operation as the exact operation followed by \<open>toDouble\<close>, rounding to the
  nearest number with a significand of 53 bits, a tie going to the even significand.
  \<open>ulpExponent v\<close> is the exponent of the unit in the last place of a positive \<open>v\<close>, that is
  \<open>\<lfloor>log\<^sub>2 v\<rfloor> - 52\<close>, computed from the bit length of \<open>\<lfloor>v\<rfloor>\<close> or of \<open>\<lceil>1 / v\<rceil> - 1\<close>, and
  \<open>pow2 e\<close> is \<open>2\<close> to the power \<open>e\<close>. The model has no exponent bounds, no infinities and no
  NaN: it is the arithmetic of the source where the operands are positive and the results are
  zero or normal doubles, as they are for byte counts and pixel dimensions from 1 up to
  \<open>2 ^ 53\<close> and for the memory threshold.
\<close>

definition ulpExponent :: "real \<Rightarrow> int" where
  "ulpExponent v =
     (if 1 \<le> v then int (floorlog 2 (nat \<lfloor>v\<rfloor>)) - 1
      else - int (floorlog 2 (nat \<lceil>1 / v\<rceil> - 1))) - 52"

definition pow2 :: "int \<Rightarrow> real" where
  "pow2 e = (if 0 \<le> e then 2 ^ nat e else 1 / 2 ^ nat (- e))"

definition roundTiesToEven :: "real \<Rightarrow> int" where
  "roundTiesToEven v =
     (let n = \<lfloor>v\<rfloor>; r = v - of_int n
      in if r < 1 / 2 then n
         else if 1 / 2 < r then n + 1
         else if even n then n else n + 1)"

definition toDouble :: "real \<Rightarrow> real" where
  "toDouble v = of_int (roundTiesToEven (v / pow2 (ulpExponent v))) * pow2 (ulpExponent v)"

definition times_js :: "real \<Rightarrow> real \<Rightarrow> real" where
  "times_js a b = toDouble (a * b)"

definition divide_js :: "real \<Rightarrow> real \<Rightarrow> real" where
  "divide_js a b = toDouble (a / b)"

section \<open>The size message\<close>

text \<open>
  \<open>formatBytes\<close> computes \<open>Math.floor(Math.log(bytes) / Math.log(1024))\<close> and
  \<open>Math.round(bytes / Math.pow(1024, i))\<close> on doubles, and the model does the same: both
  divisions are \<open>divide_js\<close>, \<open>Math.round\<close> rounds to the nearest integer with a tie going up,
  and the power, a power of two, is exact. The argument is a byte count of at most \<open>2 ^ 53\<close>,
  which a double holds exactly; it is at least 1 where the logarithm is taken, so the
  quotient is not negative and \<open>parseInt\<close> returns the integer \<open>Math.floor\<close> gave it.

  ECMAScript leaves \<open>Math.log\<close> implementation-approximated. It is modelled as the double
  nearest to the natural logarithm, the logarithm of \<open>v = m * 2\<^sup>e\<close> with \<open>1 \<le> m < 2\<close> being
  \<open>e * ln 2 + ln m\<close> and \<open>ln x = 2 * artanh ((x - 1) / (x + 1))\<close>, each \<open>artanh\<close> summed over the
  first forty terms of its series: the argument is at most \<open>1 / 3\<close>, so the first term left out
  is below \<open>3 ^ - 81\<close>. An index outside \<open>sizes\<close> reads \<open>undefined\<close>.
\<close>

definition sizes :: "string list" where
  "sizes = [''Bytes'', ''KB'', ''MB'', ''GB'']"

fun atanhSeries :: "real \<Rightarrow> nat \<Rightarrow> real" where
  "atanhSeries t 0 = 0"
| "atanhSeries t (Suc k) = atanhSeries t k + t ^ (2 * k + 1) / real (2 * k + 1)"

definition lnSeries :: "real \<Rightarrow> real" where
  "lnSeries v =
     (let e = ulpExponent v + 52; m = v / pow2 e
      in of_int e * (2 * atanhSeries (1 / 3) 40) + 2 * atanhSeries ((m - 1) / (m + 1)) 40)"

definition Math_log :: "real \<Rightarrow> real" where
  "Math_log v = toDouble (lnSeries v)"

definition Math_round :: "real \<Rightarrow> int" where
  "Math_round v = \<lfloor>v + 1 / 2\<rfloor>"

definition formatBytes :: "nat \<Rightarrow> string" where
  "formatBytes n =
     (if n = 0 then ''0 Byte''
      else (let i = nat \<lfloor>divide_js (Math_log (real n)) (Math_log 1024)\<rfloor>
            in toStringRadix 10 (nat (Math_round (divide_js (real n) (1024 ^ i)))) @ '' ''
               @ (if i < length sizes then sizes ! i else ''undefined'')))"

section \<open>validateFile\<close>

record ValidationResult =
  isValid :: bool
  errors :: "string list"
  file_obj :: File

text \<open>
  The six checks run one after the other on the same file; \<open>errors.push\<close> appends to the
  list built so far. The two reads of the file are awaited in turn, so the asynchronous
  function is the sequential composition below.
\<close>

definition push :: "'a list \<Rightarrow> 'a \<Rightarrow> 'a list" where
  "push xs x = xs @ [x]"

definition validateFile :: "config \<Rightarrow> File \<Rightarrow> ValidationResult" where
  "validateFile cfg f =
     (let errors0 = [];
          errors1 = (if size_File f > maxSize cfg
                     then push errors0 (''File too large (max '' @ formatBytes (maxSize cfg) @ '')'')
                     else errors0);
          errors2 = (if \<not> isAllowedExtension (name f)
                     then push errors1 ''File type not allowed'' else errors1);
          errors3 = (if \<not> isAllowedMimeType cfg (type f)
                     then push errors2 ''File MIME type not allowed'' else errors2);
          errors4 = (if validateMagicNumbers_cfg cfg
                     then (let isValidMagic = validateMagicNumbers f
                           in if \<not> isValidMagic
                              then push errors3 ''File signature mismatch'' else errors3)
                     else errors3);
          errors5 = (if \<not> XSSProtection_validateFile f
                     then push errors4 ''File contains potentially dangerous content''
                     else errors4);
          errors6 = (if scanForMalware_cfg cfg
                     then (let isClean = scanForMalware f
                           in if \<not> isClean
                              then push errors5 ''File failed security scan'' else errors5)
                     else errors5)
      in \<lparr> isValid = (length errors6 = 0), errors = errors6, file_obj = f \<rparr>)"

section \<open>convertImagesToPdf\<close>

text \<open>
  What the browser and the jsPDF library do is the environment of the converter:
  \<open>FileReader.readAsDataURL\<close> gives the data URL of a file or fails (\<open>onerror\<close>), an
  \<open>Image\<close> given a data URL loads with its pixel dimensions or fails, and
  \<open>jsPDF.addImage\<close> embeds image data it supports and throws on the rest.
\<close>

record Image =
  width :: nat
  height :: nat

record Env =
  readAsDataURL :: "File \<Rightarrow> string option"
  imageOnload :: "string \<Rightarrow> Image option"
  addImageSupported :: "string \<Rightarrow> bool"

datatype error = ReaderError | ImageError | AddImageError

definition readFileAsDataURL :: "Env \<Rightarrow> File \<Rightarrow> error + string" where
  "readFileAsDataURL env f =
     (case readAsDataURL env f of
        Some result \<Rightarrow> Inr result
      | None \<Rightarrow> Inl ReaderError)"

definition loadImage :: "Env \<Rightarrow> string \<Rightarrow> error + Image" where
  "loadImage env dataUrl =
     (case imageOnload env dataUrl of
        Some img \<Rightarrow> Inr img
      | None \<Rightarrow> Inl ImageError)"

text \<open>
  A jsPDF document is its list of pages, each the list of the images drawn on it, and the
  index of the current page. A new document has one empty page; \<open>addPage\<close> appends an
  empty page and makes it the current one; \<open>addImage\<close> draws on the current page.
\<close>

record Placement =
  imageData :: string
  format :: string
  x_pos :: real
  y_pos :: real
  w_img :: real
  h_img :: real

record jsPDF =
  pages :: "Placement list list"
  currentPage :: nat

definition new_jsPDF :: jsPDF where
  "new_jsPDF = \<lparr> pages = [[]], currentPage = 0 \<rparr>"

definition addPage :: "jsPDF \<Rightarrow> jsPDF" where
  "addPage doc = \<lparr> pages = pages doc @ [[]], currentPage = length (pages doc) \<rparr>"

definition addImage :: "Env \<Rightarrow> jsPDF \<Rightarrow> Placement \<Rightarrow> error + jsPDF" where
  "addImage env doc p =
     (if addImageSupported env (imageData p)
      then Inr (doc \<lparr> pages := (pages doc)[currentPage doc := pages doc ! currentPage doc @ [p]] \<rparr>)
      else Inl AddImageError)"

text \<open>
  The body of the \<open>for\<close> loop at index \<open>i\<close>, and the loop over the images left. A rejected
  promise or a thrown error ends the conversion with that error. The rectangle is computed
  with the operations on doubles; the literal \<open>2.83465\<close> is the double nearest to it. The
  model is for images of positive width and height (a zero dimension gives an infinite factor
  in the source).
\<close>

definition A4_WIDTH :: real where
  "A4_WIDTH = times_js 210 (toDouble 2.83465)"

definition A4_HEIGHT :: real where
  "A4_HEIGHT = times_js 297 (toDouble 2.83465)"

definition convertStep :: "Env \<Rightarrow> nat \<Rightarrow> File \<Rightarrow> jsPDF \<Rightarrow> error + jsPDF" where
  "convertStep env i imageFile doc =
     (case readFileAsDataURL env imageFile of
        Inl e \<Rightarrow> Inl e
      | Inr dataUrl \<Rightarrow>
          (case loadImage env dataUrl of
             Inl e \<Rightarrow> Inl e
           | Inr img \<Rightarrow>
               (let width0 = real (width img);
                    height0 = real (height img);
                    scale = min (divide_js A4_WIDTH width0) (divide_js A4_HEIGHT height0);
                    width1 = times_js width0 scale;
                    height1 = times_js height0 scale;
                    doc1 = (if i > 0 then addPage doc else doc)
                in addImage env doc1
                     \<lparr> imageData = dataUrl, format = ''JPEG'', x_pos = 0, y_pos = 0,
                       w_img = width1, h_img = height1 \<rparr>)))"

fun convertLoop :: "Env \<Rightarrow> nat \<Rightarrow> File list \<Rightarrow> jsPDF \<Rightarrow> error + jsPDF" where
  "convertLoop env i [] doc = Inr doc"
| "convertLoop env i (imageFile # rest) doc =
     (case convertStep env i imageFile doc of
        Inl e \<Rightarrow> Inl e
      | Inr doc' \<Rightarrow> convertLoop env (i + 1) rest doc')"

definition convertImagesToPdf :: "Env \<Rightarrow> File list \<Rightarrow> error + jsPDF" where
  "convertImagesToPdf env imgs = convertLoop env 0 imgs new_jsPDF"

section \<open>MemoryMonitor\<close>

text \<open>
  \<open>performance.memory\<close> exists in some browsers only; where it does, \<open>usedJSHeapSize\<close> is
  the number of bytes in use when it is read, an integer. The threshold
  \<open>memoryLimit * criticalThreshold\<close> is a product of doubles, and \<open>0.9\<close> is the double
  nearest to it.
\<close>

record MemoryMonitor =
  memoryLimit :: nat
  criticalThreshold :: real
  interval :: "nat option"

definition new_MemoryMonitor :: MemoryMonitor where
  "new_MemoryMonitor =
     \<lparr> memoryLimit = 500 * 1024 * 1024, criticalThreshold = toDouble 0.9, interval = None \<rparr>"

record PerformanceMemory =
  usedJSHeapSize :: nat

record Performance =
  memory :: "PerformanceMemory option"

definition isMemoryCritical :: "MemoryMonitor \<Rightarrow> Performance \<Rightarrow> bool" where
  "isMemoryCritical this performance =
     (case memory performance of
        Some m \<Rightarrow>
          real (usedJSHeapSize m) > times_js (real (memoryLimit this)) (criticalThreshold this)
      | None \<Rightarrow> False)"

section \<open>The checks of validateFile, as the specification lists them\<close>

text \<open>
  The specification describes the validator by its checks, applied independently, each with
  its reason: here the six checks of the constructed validator in the order of the source, each
  paired with whether it fails on the file.
\<close>

definition checks_spec :: "File \<Rightarrow> (bool \<times> string) list" where
  "checks_spec f =
     [(size_File f > 100 * 1024 * 1024, ''File too large (max 100 MB)''),
      (\<not> isAllowedExtension (name f), ''File type not allowed''),
      (\<not> isAllowedMimeType FileValidator (type f), ''File MIME type not allowed''),
      (\<not> validateMagicNumbers f, ''File signature mismatch''),
      (\<not> XSSProtection_validateFile f, ''File contains potentially dangerous content''),
      (\<not> scanForMalware f, ''File failed security scan'')]"

text \<open>The bytes of an ASCII string, to write file contents down.\<close>

definition bytesOf :: "string \<Rightarrow> 8 word list" where
  "bytesOf s = map (\<lambda>c. of_nat (of_char c)) s"

section \<open>What the converter draws, and when a file converts\<close>

text \<open>
  For the statements about the converter: the placement \<open>convertStep\<close> passes to
  \<open>addImage\<close> for a file, and whether the environment reads the file, loads the image and
  supports its data.
\<close>

definition drawn :: "Env \<Rightarrow> File \<Rightarrow> Placement" where
  "drawn env f =
     (let dataUrl = the (readAsDataURL env f);
          img = the (imageOnload env dataUrl);
          scale = min (divide_js A4_WIDTH (real (width img)))
                      (divide_js A4_HEIGHT (real (height img)))
      in \<lparr> imageData = dataUrl, format = ''JPEG'', x_pos = 0, y_pos = 0,
           w_img = times_js (real (width img)) scale,
           h_img = times_js (real (height img)) scale \<rparr>)"

definition converts :: "Env \<Rightarrow> File \<Rightarrow> bool" where
  "converts env f =
     (case readAsDataURL env f of
        None \<Rightarrow> False
      | Some u \<Rightarrow> imageOnload env u \<noteq> None \<and> addImageSupported env u)"

section \<open>Example inputs\<close>

text \<open>
  An environment that reads every file as a data URL carrying its type and name, loads it as
  an image of 1000 by 2000 pixels and supports every image; the same environment with images
  of 285 by 1 pixels; a JPEG file of a given name; and four small files with PDF content.
\<close>

definition example_env :: Env where
  "example_env =
     \<lparr> readAsDataURL = (\<lambda>f. Some (''data:'' @ type f @ '';base64,'' @ name f)),
       imageOnload = (\<lambda>u. Some \<lparr> width = 1000, height = 2000 \<rparr>),
       addImageSupported = (\<lambda>u. True) \<rparr>"

definition wide_env :: Env where
  "wide_env = example_env \<lparr> imageOnload := (\<lambda>u. Some \<lparr> width = 285, height = 1 \<rparr>) \<rparr>"

definition photo :: "string \<Rightarrow> File" where
  "photo n = \<lparr> name = n, type = ''image/jpeg'', bytes = [0xFF, 0xD8, 0xFF, 0xE0] \<rparr>"

definition pdf_with_JS :: File where
  "pdf_with_JS =
     \<lparr> name = ''form.pdf'', type = ''application/pdf'',
       bytes = bytesOf ''%PDF-1.4 << /JS (app.alert(1)) /S /JavaScript >> %%EOF'' \<rparr>"

definition pdf_with_marker :: File where
  "pdf_with_marker =
     \<lparr> name = ''form.pdf'', type = ''application/pdf'',
       bytes = bytesOf ''%PDF-1.4 << /S /JavaScript /JS (app.alert(1)) >> %%EOF'' \<rparr>"

definition pdf_bytes_as_png :: File where
  "pdf_bytes_as_png =
     \<lparr> name = ''scan.png'', type = ''image/png'', bytes = bytesOf ''%PDF-1.4 no trailer'' \<rparr>"

definition truncated_pdf :: File where
  "truncated_pdf =
     \<lparr> name = ''report.pdf'', type = ''application/pdf'',
       bytes = bytesOf ''%PDF-1.4 no trailer'' \<rparr>"

section \<open>Rounding to double\<close>

lemma roundTiesToEven_close: "\<bar>of_int (roundTiesToEven v) - v\<bar> \<le> 1 / 2"
proof -
  have "of_int \<lfloor>v\<rfloor> \<le> v" "v < of_int \<lfloor>v\<rfloor> + 1" by linarith+
  then show ?thesis
    by (auto simp: roundTiesToEven_def Let_def)
qed

lemma pow2_powr: "pow2 e = 2 powr of_int e"
  by (simp add: pow2_def powr_int)

lemma real_pow2_le: "2 ^ j \<le> (n::nat) \<Longrightarrow> (2::real) ^ j \<le> real n"
  by (metis of_nat_le_iff of_nat_numeral of_nat_power)

lemma real_less_pow2: "(n::nat) < 2 ^ j \<Longrightarrow> real n + 1 \<le> (2::real) ^ j"
  by (metis Suc_leI of_nat_Suc of_nat_le_iff of_nat_numeral of_nat_power add.commute)

lemma ulpExponent_log:
  assumes "0 < v"
  shows "ulpExponent v = \<lfloor>log 2 v\<rfloor> - 52"
proof (cases "1 \<le> v")
  case True
  define n where "n = nat \<lfloor>v\<rfloor>"
  have n: "0 < n" "real n \<le> v" "v < real n + 1"
    using True by (simp_all add: n_def; linarith)+
  from floorlog_bounds [OF n(1), of 2]
  have b: "2 ^ (floorlog 2 n - 1) \<le> n" "n < 2 ^ floorlog 2 n"
    by simp_all
  obtain j where k: "floorlog 2 n = Suc j"
    using b(2) n(1) by (cases "floorlog 2 n") simp_all
  have "(2::real) ^ j \<le> real n" using b(1) unfolding k by (intro real_pow2_le) simp
  then have "(2::real) ^ j \<le> v" using n(2) by linarith
  then have 1: "2 powr of_int (int j) \<le> v"
    by (simp add: powr_realpow)
  have "real n + 1 \<le> (2::real) ^ Suc j" using b(2) unfolding k by (rule real_less_pow2)
  then have "v < (2::real) ^ Suc j" using n(3) by linarith
  then have 2: "v < 2 powr (of_int (int j) + 1)"
    by (simp add: powr_realpow powr_add)
  have l: "\<lfloor>log 2 v\<rfloor> = int j"
    using floor_log_eq_powr_iff [of v 2 "int j"] assms 1 2 by simp
  have "ulpExponent v = int (floorlog 2 n) - 1 - 52"
    using True by (simp add: ulpExponent_def n_def)
  then show ?thesis
    unfolding k l by simp
next
  case False
  define m where "m = nat \<lceil>1 / v\<rceil>"
  have v: "1 < 1 / v" using False assms by simp
  then have c: "2 \<le> \<lceil>1 / v\<rceil>" by linarith
  have m: "2 \<le> m" "1 / v \<le> real m" "real m - 1 < 1 / v"
    using c by (simp_all add: m_def; linarith)+
  have p: "0 < m - 1" using m(1) by simp
  from floorlog_bounds [OF p, of 2]
  have b: "2 ^ (floorlog 2 (m - 1) - 1) \<le> m - 1" "m - 1 < 2 ^ floorlog 2 (m - 1)"
    by simp_all
  obtain j where k: "floorlog 2 (m - 1) = Suc j"
    using b(2) p by (cases "floorlog 2 (m - 1)") simp_all
  have "real (m - 1) + 1 \<le> (2::real) ^ Suc j" using b(2) unfolding k by (rule real_less_pow2)
  then have "real m \<le> (2::real) ^ Suc j" using m(1) by (simp add: of_nat_diff)
  then have "1 / v \<le> 2 ^ Suc j" using m(2) by linarith
  then have "1 / 2 ^ Suc j \<le> v" using assms by (simp add: field_simps)
  moreover have "(2::real) powr of_int (- int (Suc j)) = 1 / 2 ^ Suc j"
    by (simp add: powr_minus powr_realpow field_simps flip: of_nat_Suc)
  ultimately have 1: "2 powr of_int (- int (Suc j)) \<le> v" by simp
  have "(2::real) ^ j \<le> real (m - 1)" using b(1) unfolding k by (intro real_pow2_le) simp
  then have "(2::real) ^ j \<le> real m - 1" using m(1) by (simp add: of_nat_diff)
  then have "2 ^ j < 1 / v" using m(3) by linarith
  then have "v < 1 / 2 ^ j" using assms by (simp add: field_simps)
  moreover have "(2::real) powr (of_int (- int (Suc j)) + 1) = 1 / 2 ^ j"
  proof -
    have "of_int (- int (Suc j)) + 1 = - real j" by simp
    then show ?thesis by (simp add: powr_minus powr_realpow field_simps)
  qed
  ultimately have 2: "v < 2 powr (of_int (- int (Suc j)) + 1)" by simp
  have l: "\<lfloor>log 2 v\<rfloor> = - int (Suc j)"
    using floor_log_eq_powr_iff [of v 2 "- int (Suc j)"] assms 1 2 by simp
  have "ulpExponent v = - int (floorlog 2 (m - 1)) - 52"
    using False by (simp add: ulpExponent_def m_def)
  then show ?thesis
    unfolding k l .
qed

lemma ulpExponent_window:
  assumes "0 < v"
  shows "2 ^ 52 \<le> v / pow2 (ulpExponent v)" "v / pow2 (ulpExponent v) < 2 ^ 53"
proof -
  let ?k = "\<lfloor>log 2 v\<rfloor>"
  have k: "2 powr of_int ?k \<le> v" "v < 2 powr (of_int ?k + 1)"
    using floor_log_eq_powr_iff [of v 2 ?k] assms by simp_all
  have e: "pow2 (ulpExponent v) = 2 powr of_int ?k / 2 ^ 52"
    by (simp add: pow2_powr ulpExponent_log [OF assms] powr_diff)
  have p: "(0::real) < 2 powr of_int ?k" by simp
  show "2 ^ 52 \<le> v / pow2 (ulpExponent v)"
    unfolding e using k(1) p by (simp add: field_simps)
  have "(2::real) powr (of_int ?k + 1) = 2 * 2 powr of_int ?k"
    by (simp add: powr_add)
  then show "v / pow2 (ulpExponent v) < 2 ^ 53"
    unfolding e using k(2) p by (simp add: field_simps)
qed

lemma toDouble_error:
  assumes "0 < v"
  shows "\<bar>toDouble v - v\<bar> \<le> v / 2 ^ 53"
proof -
  let ?s = "pow2 (ulpExponent v)"
  let ?y = "v / ?s"
  have s: "0 < ?s" by (simp add: pow2_powr)
  have "toDouble v - v = (of_int (roundTiesToEven ?y) - ?y) * ?s"
    using s by (simp add: toDouble_def left_diff_distrib)
  then have "\<bar>toDouble v - v\<bar> = \<bar>of_int (roundTiesToEven ?y) - ?y\<bar> * ?s"
    using s by (simp add: abs_mult)
  also have "\<dots> \<le> (1 / 2) * ?s"
    using roundTiesToEven_close [of ?y] s by (intro mult_right_mono) simp_all
  also have "\<dots> \<le> v / 2 ^ 53"
  proof -
    have "2 ^ 52 * ?s \<le> v"
      using ulpExponent_window(1) [OF assms] s by (simp add: field_simps)
    then show ?thesis by simp
  qed
  finally show ?thesis .
qed

lemma toDouble_upper: "0 < v \<Longrightarrow> toDouble v \<le> v * (1 + 1 / 2 ^ 53)"
proof -
  assume "0 < v"
  then have "toDouble v - v \<le> v / 2 ^ 53"
    using toDouble_error [of v] by linarith
  moreover have "v * (1 + 1 / 2 ^ 53) = v + v / 2 ^ 53"
    by (simp add: algebra_simps)
  ultimately show ?thesis by linarith
qed

lemma toDouble_lower: "0 < v \<Longrightarrow> v * (1 - 1 / 2 ^ 53) \<le> toDouble v"
proof -
  assume "0 < v"
  then have "v - toDouble v \<le> v / 2 ^ 53"
    using toDouble_error [of v] by linarith
  moreover have "v * (1 - 1 / 2 ^ 53) = v - v / 2 ^ 53"
    by (simp add: algebra_simps)
  ultimately show ?thesis by linarith
qed

lemma toDouble_pos: "0 < v \<Longrightarrow> 0 < toDouble v"
proof -
  assume v: "0 < v"
  have "0 < v * (1 - 1 / 2 ^ 53)" using v by simp
  then show ?thesis using toDouble_lower [OF v] by linarith
qed

text \<open>The double nearest to \<open>v\<close>, from the power of two below \<open>v\<close>.\<close>

lemma toDouble_eval:
  assumes "0 < v" and "pow2 k \<le> v" and "v < pow2 (k + 1)"
  shows "toDouble v = of_int (roundTiesToEven (v / pow2 (k - 52))) * pow2 (k - 52)"
proof -
  have "\<lfloor>log 2 v\<rfloor> = k"
    using floor_log_eq_powr_iff [of v 2 k] assms by (simp add: pow2_powr)
  then show ?thesis by (simp add: toDouble_def ulpExponent_log [OF assms(1)])
qed

lemma literal_value: "toDouble 2.83465 = 6383064341862888 / 2 ^ 51"
proof -
  have "toDouble 2.83465
      = of_int (roundTiesToEven (2.83465 / pow2 (1 - 52))) * pow2 (1 - 52)"
    by (rule toDouble_eval) (simp_all add: pow2_def)
  also have "\<dots> = 6383064341862888 / 2 ^ 51"
    by (simp add: roundTiesToEven_def Let_def pow2_def)
  finally show ?thesis .
qed

lemma A4_WIDTH_value: "A4_WIDTH = 5236107467934400 / 2 ^ 43"
proof -
  have "toDouble (210 * (6383064341862888 / 2 ^ 51))
      = of_int (roundTiesToEven (210 * (6383064341862888 / 2 ^ 51) / pow2 (9 - 52)))
        * pow2 (9 - 52)"
    by (rule toDouble_eval) (simp_all add: pow2_def)
  also have "\<dots> = 5236107467934400 / 2 ^ 43"
    by (simp add: roundTiesToEven_def Let_def pow2_def)
  finally show ?thesis
    unfolding A4_WIDTH_def times_js_def literal_value .
qed

lemma A4_HEIGHT_value: "A4_HEIGHT = 7405351990364366 / 2 ^ 43"
proof -
  have "toDouble (297 * (6383064341862888 / 2 ^ 51))
      = of_int (roundTiesToEven (297 * (6383064341862888 / 2 ^ 51) / pow2 (9 - 52)))
        * pow2 (9 - 52)"
    by (rule toDouble_eval) (simp_all add: pow2_def)
  also have "\<dots> = 7405351990364366 / 2 ^ 43"
    by (simp add: roundTiesToEven_def Let_def pow2_def)
  finally show ?thesis
    unfolding A4_HEIGHT_def times_js_def literal_value .
qed

lemma scale_285: "divide_js A4_WIDTH 285 = 4703310567688444 / 2 ^ 51"
proof -
  have "toDouble (5236107467934400 / 2 ^ 43 / 285)
      = of_int (roundTiesToEven (5236107467934400 / 2 ^ 43 / 285 / pow2 (1 - 52)))
        * pow2 (1 - 52)"
    by (rule toDouble_eval) (simp_all add: pow2_def)
  also have "\<dots> = 4703310567688444 / 2 ^ 51"
    by (simp add: roundTiesToEven_def Let_def pow2_def)
  finally show ?thesis
    unfolding divide_js_def A4_WIDTH_value .
qed

lemma scale_1: "divide_js A4_HEIGHT 1 = 7405351990364366 / 2 ^ 43"
proof -
  have "toDouble (7405351990364366 / 2 ^ 43 / 1)
      = of_int (roundTiesToEven (7405351990364366 / 2 ^ 43 / 1 / pow2 (9 - 52)))
        * pow2 (9 - 52)"
    by (rule toDouble_eval) (simp_all add: pow2_def)
  also have "\<dots> = 7405351990364366 / 2 ^ 43"
    by (simp add: roundTiesToEven_def Let_def pow2_def)
  finally show ?thesis
    unfolding divide_js_def A4_HEIGHT_value .
qed

lemma width_285: "times_js 285 (4703310567688444 / 2 ^ 51) = 5236107467934401 / 2 ^ 43"
proof -
  have "toDouble (285 * (4703310567688444 / 2 ^ 51))
      = of_int (roundTiesToEven (285 * (4703310567688444 / 2 ^ 51) / pow2 (9 - 52)))
        * pow2 (9 - 52)"
    by (rule toDouble_eval) (simp_all add: pow2_def)
  also have "\<dots> = 5236107467934401 / 2 ^ 43"
    by (simp add: roundTiesToEven_def Let_def pow2_def)
  finally show ?thesis
    unfolding times_js_def .
qed

lemma height_1: "times_js 1 (4703310567688444 / 2 ^ 51) = 4703310567688444 / 2 ^ 51"
proof -
  have "toDouble (1 * (4703310567688444 / 2 ^ 51))
      = of_int (roundTiesToEven (1 * (4703310567688444 / 2 ^ 51) / pow2 (1 - 52)))
        * pow2 (1 - 52)"
    by (rule toDouble_eval) (simp_all add: pow2_def)
  also have "\<dots> = 4703310567688444 / 2 ^ 51"
    by (simp add: roundTiesToEven_def Let_def pow2_def)
  finally show ?thesis
    unfolding times_js_def .
qed

lemma criticalThreshold_value: "toDouble 0.9 = 8106479329266893 / 2 ^ 53"
proof -
  have "toDouble 0.9
      = of_int (roundTiesToEven (0.9 / pow2 (- 1 - 52))) * pow2 (- 1 - 52)"
    by (rule toDouble_eval) (simp_all add: pow2_def)
  also have "\<dots> = 8106479329266893 / 2 ^ 53"
    by (simp add: roundTiesToEven_def Let_def pow2_def)
  finally show ?thesis .
qed

lemma threshold_value: "times_js 524288000 (toDouble 0.9) = 471859200"
proof -
  have "toDouble (524288000 * (8106479329266893 / 2 ^ 53))
      = of_int (roundTiesToEven (524288000 * (8106479329266893 / 2 ^ 53) / pow2 (28 - 52)))
        * pow2 (28 - 52)"
    by (rule toDouble_eval) (simp_all add: pow2_def)
  also have "\<dots> = 471859200"
    by (simp add: roundTiesToEven_def Let_def pow2_def)
  finally show ?thesis
    unfolding times_js_def criticalThreshold_value .
qed

section \<open>Evaluating the size message\<close>

lemma digitChar_simps:
  "digitChar 0 = CHR ''0''" "digitChar (Suc 0) = CHR ''1''" "digitChar 2 = CHR ''2''"
  "digitChar 3 = CHR ''3''" "digitChar 4 = CHR ''4''" "digitChar 5 = CHR ''5''"
  "digitChar 6 = CHR ''6''" "digitChar 7 = CHR ''7''" "digitChar 8 = CHR ''8''"
  "digitChar 9 = CHR ''9''" "digitChar 10 = CHR ''a''" "digitChar 11 = CHR ''b''"
  "digitChar 12 = CHR ''c''" "digitChar 13 = CHR ''d''" "digitChar 14 = CHR ''e''"
  "digitChar 15 = CHR ''f''"
  by (simp_all add: digitChar_def)

lemma toStringRadix_100: "toStringRadix 10 100 = ''100''"
proof -
  have a: "toStringRadix 10 1 = ''1''"
    by (subst toStringRadix.simps) (simp add: digitChar_simps)
  have b: "toStringRadix 10 10 = ''10''"
    by (subst toStringRadix.simps) (simp add: a digitChar_simps)
  show ?thesis by (subst toStringRadix.simps) (simp add: b digitChar_simps)
qed

lemma atanhSeries_zero: "atanhSeries 0 n = 0"
  by (induction n) simp_all

lemma atanhSeries_lower: "0 \<le> t \<Longrightarrow> t \<le> atanhSeries t (Suc n)"
proof (induction n)
  case 0
  then show ?case by simp
next
  case (Suc n)
  have "0 \<le> t ^ (2 * Suc n + 1) / real (2 * Suc n + 1)"
    using Suc.prems by (intro divide_nonneg_nonneg zero_le_power) simp_all
  moreover have "atanhSeries t (Suc (Suc n))
      = atanhSeries t (Suc n) + t ^ (2 * Suc n + 1) / real (2 * Suc n + 1)"
    by (rule atanhSeries.simps(2))
  ultimately show ?case using Suc.IH [OF Suc.prems] by linarith
qed

lemma atanhSeries_geometric:
  assumes "0 \<le> t" and "t < 1"
  shows "atanhSeries t n \<le> t * (1 - t ^ (2 * n)) / (1 - t\<^sup>2)"
proof (induction n)
  case 0
  show ?case by simp
next
  case (Suc n)
  have d: "0 < 1 - t\<^sup>2"
    using assms by (simp add: power_less_one_iff abs_square_less_1)
  have "t ^ (2 * n + 1) / real (2 * n + 1) \<le> t ^ (2 * n + 1)"
    using assms(1) by (simp add: field_simps mult_left_mono)
  then have "atanhSeries t (Suc n) \<le> t * (1 - t ^ (2 * n)) / (1 - t\<^sup>2) + t ^ (2 * n + 1)"
    using Suc by simp
  also have "\<dots> = t * (1 - t ^ (2 * Suc n)) / (1 - t\<^sup>2)"
    using d by (simp add: field_simps power2_eq_square)
  finally show ?case .
qed

lemma atanhSeries_upper:
  assumes "0 \<le> t" and "t < 1"
  shows "atanhSeries t n \<le> t / (1 - t\<^sup>2)"
proof -
  have d: "0 < 1 - t\<^sup>2"
    using assms by (simp add: power_less_one_iff abs_square_less_1)
  have "t * (1 - t ^ (2 * n)) \<le> t * 1"
    using assms(1) by (intro mult_left_mono) simp_all
  then have "t * (1 - t ^ (2 * n)) / (1 - t\<^sup>2) \<le> t / (1 - t\<^sup>2)"
    using d by (simp add: divide_right_mono)
  then show ?thesis
    using atanhSeries_geometric [OF assms, of n] by linarith
qed

lemma lnSeries_eval:
  assumes "0 < v" and "pow2 k \<le> v" and "v < pow2 (k + 1)"
  shows "lnSeries v = of_int k * (2 * atanhSeries (1 / 3) 40)
                      + 2 * atanhSeries ((v / pow2 k - 1) / (v / pow2 k + 1)) 40"
proof -
  have "\<lfloor>log 2 v\<rfloor> = k"
    using floor_log_eq_powr_iff [of v 2 k] assms by (simp add: pow2_powr)
  then show ?thesis by (simp add: lnSeries_def Let_def ulpExponent_log [OF assms(1)])
qed

lemma atanhSeries_third: "1 / 3 \<le> atanhSeries (1 / 3) 40" "atanhSeries (1 / 3) 40 \<le> 3 / 8"
proof -
  show "1 / 3 \<le> atanhSeries (1 / 3) 40"
    using atanhSeries_lower [of "1 / 3" 39] by simp
  show "atanhSeries (1 / 3) 40 \<le> 3 / 8"
    using atanhSeries_upper [of "1 / 3" 40] by (simp add: power2_eq_square)
qed

lemma lnSeries_1024: "20 / 3 \<le> lnSeries 1024" "lnSeries 1024 \<le> 15 / 2"
proof -
  have "lnSeries 1024 = of_int 10 * (2 * atanhSeries (1 / 3) 40)
                        + 2 * atanhSeries ((1024 / pow2 10 - 1) / (1024 / pow2 10 + 1)) 40"
    by (rule lnSeries_eval) (simp_all add: pow2_def)
  then have e: "lnSeries 1024 = 20 * atanhSeries (1 / 3) 40"
    by (simp add: pow2_def atanhSeries_zero)
  show "20 / 3 \<le> lnSeries 1024" "lnSeries 1024 \<le> 15 / 2"
    unfolding e using atanhSeries_third by linarith+
qed

lemma lnSeries_maxSize: "17 \<le> lnSeries 104857600" "lnSeries 104857600 \<le> 19962 / 1000"
proof -
  have "lnSeries 104857600 = of_int 26 * (2 * atanhSeries (1 / 3) 40)
          + 2 * atanhSeries ((104857600 / pow2 26 - 1) / (104857600 / pow2 26 + 1)) 40"
    by (rule lnSeries_eval) (simp_all add: pow2_def)
  then have e: "lnSeries 104857600 = 52 * atanhSeries (1 / 3) 40 + 2 * atanhSeries (9 / 41) 40"
    by (simp add: pow2_def)
  have l: "9 / 41 \<le> atanhSeries (9 / 41) 40"
    using atanhSeries_lower [of "9 / 41" 39] by simp
  have u: "atanhSeries (9 / 41) 40 \<le> 369 / 1600"
    using atanhSeries_upper [of "9 / 41" 40] by (simp add: power2_eq_square)
  show "17 \<le> lnSeries 104857600" "lnSeries 104857600 \<le> 19962 / 1000"
    unfolding e using atanhSeries_third l u by linarith+
qed

lemma toDouble_between:
  assumes "0 < a" and "a \<le> v" and "v \<le> b"
  shows "a * (1 - 1 / 2 ^ 53) \<le> toDouble v" "toDouble v \<le> b * (1 + 1 / 2 ^ 53)"
proof -
  have v: "0 < v" using assms by linarith
  have "a * (1 - 1 / 2 ^ 53) \<le> v * (1 - 1 / 2 ^ 53)"
    using assms(2) by (intro mult_right_mono) simp_all
  then show "a * (1 - 1 / 2 ^ 53) \<le> toDouble v"
    using toDouble_lower [OF v] by linarith
  have "v * (1 + 1 / 2 ^ 53) \<le> b * (1 + 1 / 2 ^ 53)"
    using assms(3) by (intro mult_right_mono) simp_all
  then show "toDouble v \<le> b * (1 + 1 / 2 ^ 53)"
    using toDouble_upper [OF v] by linarith
qed

lemma log_quotient_maxSize: "\<lfloor>divide_js (Math_log 104857600) (Math_log 1024)\<rfloor> = 2"
proof -
  let ?A = "Math_log 104857600" and ?B = "Math_log 1024"
  have A: "169 / 10 \<le> ?A" "?A \<le> 1997 / 100"
    using toDouble_between [of 17 "lnSeries 104857600" "19962 / 1000"] lnSeries_maxSize
    by (simp_all add: Math_log_def)
  have B: "666 / 100 \<le> ?B" "?B \<le> 76 / 10"
    using toDouble_between [of "20 / 3" "lnSeries 1024" "15 / 2"] lnSeries_1024
    by (simp_all add: Math_log_def)
  have q1: "(169 / 10) / (76 / 10) \<le> ?A / ?B"
    using A(1) B by (intro frac_le) simp_all
  have q2: "?A / ?B \<le> (1997 / 100) / (666 / 100)"
    using A B(1) by (intro frac_le) simp_all
  have "2 \<le> toDouble (?A / ?B)" "toDouble (?A / ?B) < 3"
    using toDouble_between [of "(169 / 10) / (76 / 10)" "?A / ?B" "(1997 / 100) / (666 / 100)"] q1 q2
    by simp_all
  then show ?thesis
    unfolding divide_js_def by (intro floor_unique) simp_all
qed

lemma toDouble_100: "toDouble 100 = 100"
proof -
  have "toDouble 100 = of_int (roundTiesToEven (100 / pow2 (6 - 52))) * pow2 (6 - 52)"
    by (rule toDouble_eval) (simp_all add: pow2_def)
  also have "\<dots> = 100"
    by (simp add: roundTiesToEven_def Let_def pow2_def)
  finally show ?thesis .
qed

lemma formatBytes_maxSize: "formatBytes (maxSize FileValidator) = ''100 MB''"
proof -
  have m: "maxSize FileValidator = 104857600"
    by (simp add: FileValidator_def)
  have i: "nat \<lfloor>divide_js (Math_log (real (104857600::nat))) (Math_log 1024)\<rfloor> = 2"
    using log_quotient_maxSize by simp
  have f: "formatBytes 104857600 =
             toStringRadix 10 (nat (Math_round (divide_js (real (104857600::nat)) (1024 ^ 2))))
             @ '' '' @ (if (2::nat) < length sizes then sizes ! 2 else ''undefined'')"
    unfolding formatBytes_def Let_def i by (rule if_not_P) simp
  have q: "divide_js (real (104857600::nat)) (1024 ^ 2) = 100"
    by (simp add: divide_js_def toDouble_100)
  have r: "nat (Math_round 100) = 100"
    by (simp add: Math_round_def)
  show ?thesis
    unfolding m f q r by (simp add: toStringRadix_100 sizes_def digitChar_simps)
qed

lemma FileValidator_cfg:
  "maxSize FileValidator = 104857600" "validateMagicNumbers_cfg FileValidator"
  "scanForMalware_cfg FileValidator"
  by (simp_all add: FileValidator_def)

section \<open>The reasons validateFile returns\<close>

lemma validateFile_errors:
  "errors (validateFile FileValidator f) =
     (if size_File f > 104857600 then [''File too large (max 100 MB)''] else [])
     @ (if \<not> isAllowedExtension (name f) then [''File type not allowed''] else [])
     @ (if \<not> isAllowedMimeType FileValidator (type f) then [''File MIME type not allowed''] else [])
     @ (if \<not> validateMagicNumbers f then [''File signature mismatch''] else [])
     @ (if \<not> XSSProtection_validateFile f
        then [''File contains potentially dangerous content''] else [])
     @ (if \<not> scanForMalware f then [''File failed security scan''] else [])"
proof -
  have m: "''File too large (max '' @ formatBytes (maxSize FileValidator) @ '')''
             = ''File too large (max 100 MB)''"
    by (simp add: formatBytes_maxSize)
  have p: "(if c then xs @ [r] else xs) = xs @ (if c then [r] else [])"
    for c and xs :: "string list" and r
    by simp
  show ?thesis
    unfolding validateFile_def Let_def push_def m
    by (simp add: FileValidator_cfg p split del: if_split)
qed

lemma validateFile_isValid:
  "isValid (validateFile cfg f) = (errors (validateFile cfg f) = [])"
  by (simp add: validateFile_def Let_def split del: if_split)

section \<open>When memory is critical\<close>

text \<open>
  C8. \<open>isMemoryCritical\<close> of a constructed monitor is true exactly when there is a heap sample
  and the sampled \<open>usedJSHeapSize\<close> is strictly above 90% of 500 MiB, that is above
  \<open>0.9 * 500 * 1024 * 1024\<close> bytes; without \<open>performance.memory\<close> it is false.
\<close>

theorem isMemoryCritical_iff:
  "isMemoryCritical new_MemoryMonitor performance \<longleftrightarrow>
     (\<exists>m. memory performance = Some m
          \<and> real (usedJSHeapSize m) > 0.9 * (500 * 1024 * 1024))"
  by (cases "memory performance")
    (simp_all add: isMemoryCritical_def new_MemoryMonitor_def threshold_value)

theorem isMemoryCritical_iff_witness:
  "isMemoryCritical new_MemoryMonitor \<lparr> memory = Some \<lparr> usedJSHeapSize = 471859201 \<rparr> \<rparr>
   \<and> \<not> isMemoryCritical new_MemoryMonitor \<lparr> memory = Some \<lparr> usedJSHeapSize = 471859200 \<rparr> \<rparr>
   \<and> \<not> isMemoryCritical new_MemoryMonitor \<lparr> memory = None \<rparr>"
  using isMemoryCritical_iff [of "\<lparr> memory = Some \<lparr> usedJSHeapSize = 471859201 \<rparr> \<rparr>"]
    isMemoryCritical_iff [of "\<lparr> memory = Some \<lparr> usedJSHeapSize = 471859200 \<rparr> \<rparr>"]
    isMemoryCritical_iff [of "\<lparr> memory = None \<rparr>"]
  by simp

section \<open>The size limit, the extension and dangerous names\<close>

text \<open>
  C6. A file of more than 100 MiB (\<open>100 * 1024 * 1024\<close> bytes) is rejected and the size
  reason is among the reasons returned; a file of 100 MiB or less does not get the size reason.
\<close>

theorem validateFile_size_limit:
  "(size_File f > 100 * 1024 * 1024 \<longrightarrow>
      \<not> isValid (validateFile FileValidator f)
      \<and> ''File too large (max 100 MB)'' \<in> set (errors (validateFile FileValidator f)))
   \<and> (size_File f \<le> 100 * 1024 * 1024 \<longrightarrow>
      ''File too large (max 100 MB)'' \<notin> set (errors (validateFile FileValidator f)))"
  by (simp add: validateFile_isValid validateFile_errors)

theorem validateFile_size_limit_witness:
  "size_File \<lparr> name = ''big.pdf'', type = ''application/pdf'', bytes = replicate 104857601 0 \<rparr>
     > 100 * 1024 * 1024
   \<and> \<not> isValid (validateFile FileValidator
         \<lparr> name = ''big.pdf'', type = ''application/pdf'', bytes = replicate 104857601 0 \<rparr>)
   \<and> ''File too large (max 100 MB)'' \<in> set (errors (validateFile FileValidator
         \<lparr> name = ''big.pdf'', type = ''application/pdf'', bytes = replicate 104857601 0 \<rparr>))
   \<and> size_File \<lparr> name = ''full.pdf'', type = ''application/pdf'', bytes = replicate 104857600 0 \<rparr>
     \<le> 100 * 1024 * 1024
   \<and> ''File too large (max 100 MB)'' \<notin> set (errors (validateFile FileValidator
         \<lparr> name = ''full.pdf'', type = ''application/pdf'', bytes = replicate 104857600 0 \<rparr>))"
  using validateFile_size_limit
      [of "\<lparr> name = ''big.pdf'', type = ''application/pdf'', bytes = replicate 104857601 0 \<rparr>"]
    validateFile_size_limit
      [of "\<lparr> name = ''full.pdf'', type = ''application/pdf'', bytes = replicate 104857600 0 \<rparr>"]
  by (simp add: size_File_def)

text \<open>
  C7. A file whose lower-case extension (the last segment of the lower-cased name split at
  the dots) is not in the allow-list is rejected with the extension reason, whatever MIME
  type \<open>t\<close> it declares.
\<close>

theorem validateFile_extension:
  assumes "pop (split CHR ''.'' (toLowerCase (name f))) \<notin> set allowedExtensions"
  shows "\<not> isValid (validateFile FileValidator (f \<lparr> type := t \<rparr>))
         \<and> ''File type not allowed''
             \<in> set (errors (validateFile FileValidator (f \<lparr> type := t \<rparr>)))"
  using assms
  by (simp add: validateFile_isValid validateFile_errors isAllowedExtension_def)

theorem validateFile_extension_witness:
  "pop (split CHR ''.''
         (toLowerCase (name \<lparr> name = ''Setup.EXE'', type = ''text/plain'', bytes = [] \<rparr>)))
     \<notin> set allowedExtensions
   \<and> \<not> isValid (validateFile FileValidator
           (\<lparr> name = ''Setup.EXE'', type = ''text/plain'', bytes = [] \<rparr>
              \<lparr> type := ''application/pdf'' \<rparr>))
   \<and> ''File type not allowed'' \<in> set (errors (validateFile FileValidator
           (\<lparr> name = ''Setup.EXE'', type = ''text/plain'', bytes = [] \<rparr>
              \<lparr> type := ''application/pdf'' \<rparr>)))"
proof -
  have l: "toLowerCase ''Setup.EXE'' = ''setup.exe''"
    by (simp add: toLowerCase_def toLowerCase_char_def char_of_eq_iff)
  have hyp: "pop (split CHR ''.''
         (toLowerCase (name \<lparr> name = ''Setup.EXE'', type = ''text/plain'', bytes = [] \<rparr>)))
     \<notin> set allowedExtensions"
    by (simp add: l pop_def allowedExtensions_def)
  show ?thesis
    using hyp validateFile_extension [OF hyp, of "''application/pdf''"] by simp
qed

text \<open>
  C10. The check of \<open>XSSProtection.validateFile\<close> is one more check of \<open>validateFile\<close>: a file
  whose lower-cased name ends with one of the dangerous extensions is rejected and the reason
  \<open>File contains potentially dangerous content\<close> is among the reasons, whatever the
  other checks say.
\<close>

theorem validateFile_dangerous_name:
  assumes "\<exists>ext \<in> set [''.exe'', ''.bat'', ''.cmd'', ''.sh'', ''.php'', ''.js'', ''.html'',
                         ''.htm'', ''.vbs'', ''.ps1'', ''.jar'', ''.py''].
             endsWith (toLowerCase (name f)) ext"
  shows "\<not> isValid (validateFile FileValidator f)
         \<and> ''File contains potentially dangerous content''
             \<in> set (errors (validateFile FileValidator f))"
proof -
  have "\<not> XSSProtection_validateFile f"
    using assms by (simp add: XSSProtection_validateFile_def dangerousExtensions_def Let_def)
  then show ?thesis
    by (simp add: validateFile_isValid validateFile_errors)
qed

theorem validateFile_dangerous_name_witness:
  "(\<exists>ext \<in> set [''.exe'', ''.bat'', ''.cmd'', ''.sh'', ''.php'', ''.js'', ''.html'',
                  ''.htm'', ''.vbs'', ''.ps1'', ''.jar'', ''.py''].
      endsWith (toLowerCase (name \<lparr> name = ''report.pdf.JS'', type = ''application/pdf'',
                                     bytes = bytesOf ''%PDF %%EOF'' \<rparr>)) ext)
   \<and> \<not> isValid (validateFile FileValidator
           \<lparr> name = ''report.pdf.JS'', type = ''application/pdf'', bytes = bytesOf ''%PDF %%EOF'' \<rparr>)
   \<and> ''File contains potentially dangerous content''
        \<in> set (errors (validateFile FileValidator
           \<lparr> name = ''report.pdf.JS'', type = ''application/pdf'', bytes = bytesOf ''%PDF %%EOF'' \<rparr>))"
proof -
  have l: "toLowerCase ''report.pdf.JS'' = ''report.pdf.js''"
    by (simp add: toLowerCase_def toLowerCase_char_def char_of_eq_iff)
  have hyp: "\<exists>ext \<in> set [''.exe'', ''.bat'', ''.cmd'', ''.sh'', ''.php'', ''.js'', ''.html'',
                  ''.htm'', ''.vbs'', ''.ps1'', ''.jar'', ''.py''].
      endsWith (toLowerCase (name \<lparr> name = ''report.pdf.JS'', type = ''application/pdf'',
                                     bytes = bytesOf ''%PDF %%EOF'' \<rparr>)) ext"
    by (simp add: l endsWith_def suffix_to_prefix)
  show ?thesis
    using hyp validateFile_dangerous_name [OF hyp] by blast
qed

section \<open>Splitting a file name\<close>

lemma split_nonempty: "split sep s \<noteq> []"
  by (induction s) (auto split: list.splits)

lemma split_no_sep: "sep \<notin> set s \<Longrightarrow> split sep s = [s]"
  by (induction s) auto

lemma split_append_sep: "split sep (s @ sep # t) = split sep s @ split sep t"
proof (induction s)
  case Nil
  show ?case by simp
next
  case (Cons a s)
  obtain y ys where y: "split sep s = y # ys"
    using split_nonempty [of sep s] by (cases "split sep s") auto
  show ?case using Cons y by simp
qed

lemma last_split_snoc: "last (split sep (s @ [sep])) = []"
  by (simp add: split_append_sep)

lemma toLowerCase_char_dot: "toLowerCase_char c = CHR ''.'' \<longleftrightarrow> c = CHR ''.''"
proof (cases "(65 \<le> (of_char c :: nat) \<and> (of_char c :: nat) \<le> 90) \<or> (192 \<le> (of_char c :: nat) \<and> (of_char c :: nat) \<le> 222 \<and> (of_char c :: nat) \<noteq> 215)")
  case True
  then have u: "toLowerCase_char c = char_of ((of_char c :: nat) + 32)"
    by (simp add: toLowerCase_char_def)
  have "(of_char c :: nat) + 32 < 256" using True by auto
  then have "(of_char (toLowerCase_char c) :: nat) = of_char c + 32"
    unfolding u by simp
  then have "(of_char (toLowerCase_char c) :: nat) \<noteq> 46" using True by auto
  then have "toLowerCase_char c \<noteq> CHR ''.''" by auto
  moreover have "c \<noteq> CHR ''.''" using True by auto
  ultimately show ?thesis by simp
next
  case False
  then show ?thesis by (auto simp: toLowerCase_char_def Let_def)
qed

lemma toLowerCase_dot_free: "CHR ''.'' \<in> set (toLowerCase s) \<longleftrightarrow> CHR ''.'' \<in> set s"
proof -
  have "CHR ''.'' \<in> toLowerCase_char ` set s \<longleftrightarrow> (\<exists>c \<in> set s. toLowerCase_char c = CHR ''.'')"
    by force
  then show ?thesis
    by (simp add: toLowerCase_def toLowerCase_char_dot)
qed

lemma toLowerCase_allowed:
  "e \<in> set allowedExtensions \<Longrightarrow> toLowerCase e = e \<and> CHR ''.'' \<notin> set e"
  by (auto simp: allowedExtensions_def toLowerCase_def toLowerCase_char_def)

text \<open>
  C9. For a file name without a dot the extension tested is the whole lower-cased name (the
  only segment of the split), so the check passes exactly when that name is in the
  allow-list: a file named \<open>pdf\<close>, or named as any other allowed extension, passes. For a
  file name ending in a dot the empty string is tested and the check fails.
\<close>

theorem isAllowedExtension_dotless:
  "(CHR ''.'' \<notin> set filename \<longrightarrow>
      pop (split CHR ''.'' (toLowerCase filename)) = toLowerCase filename
      \<and> isAllowedExtension filename = (toLowerCase filename \<in> set allowedExtensions))
   \<and> isAllowedExtension ''pdf''
   \<and> (\<forall>e \<in> set allowedExtensions. isAllowedExtension e)
   \<and> (endsWith filename ''.'' \<longrightarrow>
      pop (split CHR ''.'' (toLowerCase filename)) = '''' \<and> \<not> isAllowedExtension filename)"
proof -
  have a: "pop (split CHR ''.'' (toLowerCase s)) = toLowerCase s"
    if "CHR ''.'' \<notin> set s" for s
    using that by (simp add: pop_def split_no_sep toLowerCase_dot_free)
  have b: "isAllowedExtension e" if "e \<in> set allowedExtensions" for e
    using that toLowerCase_allowed [OF that] a [of e]
    by (simp add: isAllowedExtension_def)
  have c: "pop (split CHR ''.'' (toLowerCase s)) = ''''" if "endsWith s ''.''" for s
  proof -
    from that obtain r where "s = r @ ''.''"
      by (auto simp: endsWith_def suffix_def)
    then have "toLowerCase s = toLowerCase r @ ''.''"
      by (simp add: toLowerCase_def toLowerCase_char_def)
    then show ?thesis by (simp add: pop_def last_split_snoc)
  qed
  have d: "'''' \<notin> set allowedExtensions" by (simp add: allowedExtensions_def)
  have p: "''pdf'' \<in> set allowedExtensions" by (simp add: allowedExtensions_def)
  have 1: "CHR ''.'' \<notin> set filename \<longrightarrow>
      pop (split CHR ''.'' (toLowerCase filename)) = toLowerCase filename
      \<and> isAllowedExtension filename = (toLowerCase filename \<in> set allowedExtensions)"
    using a [of filename] by (simp add: isAllowedExtension_def)
  have 2: "endsWith filename ''.'' \<longrightarrow>
      pop (split CHR ''.'' (toLowerCase filename)) = '''' \<and> \<not> isAllowedExtension filename"
    using c [of filename] d by (simp add: isAllowedExtension_def)
  show ?thesis
    using 1 2 b p by blast
qed

theorem isAllowedExtension_dotless_witness:
  "CHR ''.'' \<notin> set ''PDF''
   \<and> pop (split CHR ''.'' (toLowerCase ''PDF'')) = ''pdf''
   \<and> isAllowedExtension ''PDF''
   \<and> isAllowedExtension ''pdf''
   \<and> endsWith ''report.'' ''.''
   \<and> pop (split CHR ''.'' (toLowerCase ''report.'')) = ''''
   \<and> \<not> isAllowedExtension ''report.''"
proof -
  have l: "toLowerCase ''PDF'' = ''pdf''"
    by (simp add: toLowerCase_def toLowerCase_char_def char_of_eq_iff)
  have e: "endsWith ''report.'' ''.''"
    by (simp add: endsWith_def suffix_to_prefix)
  have n: "CHR ''.'' \<notin> set ''PDF''" by simp
  have p: "''pdf'' \<in> set allowedExtensions" by (simp add: allowedExtensions_def)
  show ?thesis
    using isAllowedExtension_dotless [of "''PDF''"] isAllowedExtension_dotless [of "''report.''"]
      l e n p
    by simp
qed

section \<open>Every check runs\<close>

text \<open>
  C1. \<open>validateFile\<close> runs every check: the reasons returned are those of the failing
  checks, all of them, in the order of the checks, one for each failing check; \<open>isValid\<close>
  holds exactly when that list is empty, which is exactly when every check passes; and the
  result carries the file.
\<close>

theorem validateFile_accumulates:
  "errors (validateFile FileValidator f) = map snd (filter fst (checks_spec f))
   \<and> length (errors (validateFile FileValidator f)) = length (filter fst (checks_spec f))
   \<and> (isValid (validateFile FileValidator f) \<longleftrightarrow> errors (validateFile FileValidator f) = [])
   \<and> (isValid (validateFile FileValidator f) \<longleftrightarrow> (\<forall>c \<in> set (checks_spec f). \<not> fst c))
   \<and> file_obj (validateFile FileValidator f) = f"
proof -
  have p: "map snd (filter fst ((c, r) # cs)) = (if c then [r] else []) @ map snd (filter fst cs)"
    for c and r :: string and cs
    by simp
  have e: "errors (validateFile FileValidator f) = map snd (filter fst (checks_spec f))"
    unfolding validateFile_errors checks_spec_def p
    by (simp split del: if_split)
  have v: "isValid (validateFile FileValidator f) \<longleftrightarrow> (\<forall>c \<in> set (checks_spec f). \<not> fst c)"
    unfolding validateFile_isValid e
    by (simp add: filter_empty_conv)
  have o: "file_obj (validateFile FileValidator f) = f"
    by (simp add: validateFile_def Let_def split del: if_split)
  show ?thesis
    using e v o validateFile_isValid [of FileValidator f] by simp
qed

theorem validateFile_accumulates_witness:
  "errors (validateFile FileValidator
      \<lparr> name = ''Setup.EXE'', type = ''text/html'', bytes = bytesOf ''MZ'' \<rparr>)
     = [''File type not allowed'', ''File MIME type not allowed'', ''File signature mismatch'',
        ''File contains potentially dangerous content'']
   \<and> \<not> isValid (validateFile FileValidator
      \<lparr> name = ''Setup.EXE'', type = ''text/html'', bytes = bytesOf ''MZ'' \<rparr>)"
proof -
  let ?f = "\<lparr> name = ''Setup.EXE'', type = ''text/html'', bytes = bytesOf ''MZ'' \<rparr>"
  have l: "toLowerCase ''Setup.EXE'' = ''setup.exe''"
    by (simp add: toLowerCase_def toLowerCase_char_def char_of_eq_iff)
  have c1: "\<not> size_File ?f > 100 * 1024 * 1024"
    by (simp add: size_File_def bytesOf_def)
  have c2: "\<not> isAllowedExtension (name ?f)"
    by (simp add: isAllowedExtension_def l pop_def allowedExtensions_def)
  have c3: "\<not> isAllowedMimeType FileValidator (type ?f)"
    by (simp add: isAllowedMimeType_def FileValidator_def)
  have c4: "\<not> validateMagicNumbers ?f"
    by (simp add: validateMagicNumbers_def slice_blob_def bytesOf_def Let_def padStart_def
        digitChar_simps toUpperCase_def toUpperCase_char_def char_of_eq_iff magicNumbers_def
        startsWith_def)
  have c5: "\<not> XSSProtection_validateFile ?f"
    by (simp add: XSSProtection_validateFile_def l dangerousExtensions_def endsWith_def
        suffix_to_prefix)
  have c6: "scanForMalware ?f"
    by (simp add: scanForMalware_def)
  have "filter fst (checks_spec ?f) =
      [(True, ''File type not allowed''), (True, ''File MIME type not allowed''),
       (True, ''File signature mismatch''),
       (True, ''File contains potentially dangerous content'')]"
    using c1 c2 c3 c4 c5 c6 unfolding checks_spec_def by simp
  then show ?thesis
    using validateFile_accumulates [of ?f] by simp
qed

section \<open>The pages of a converted document\<close>

lemma convertStep_ok:
  assumes "converts env f"
  shows "convertStep env i f doc =
           Inr ((if i > 0 then addPage doc else doc)
                  \<lparr> pages := (pages (if i > 0 then addPage doc else doc))
                       [currentPage (if i > 0 then addPage doc else doc) :=
                          pages (if i > 0 then addPage doc else doc)
                            ! currentPage (if i > 0 then addPage doc else doc) @ [drawn env f]] \<rparr>)"
proof -
  from assms obtain u img where u: "readAsDataURL env f = Some u"
    and img: "imageOnload env u = Some img" and s: "addImageSupported env u"
    by (auto simp: converts_def split: option.splits)
  have d: "drawn env f = \<lparr> imageData = u, format = ''JPEG'', x_pos = 0, y_pos = 0,
           w_img = times_js (real (width img))
                     (min (divide_js A4_WIDTH (real (width img)))
                          (divide_js A4_HEIGHT (real (height img)))),
           h_img = times_js (real (height img))
                     (min (divide_js A4_WIDTH (real (width img)))
                          (divide_js A4_HEIGHT (real (height img)))) \<rparr>"
    by (simp add: drawn_def u img Let_def)
  show ?thesis
    unfolding d
    by (simp add: convertStep_def readFileAsDataURL_def loadImage_def u img s addImage_def Let_def)
qed

lemma convertStep_later:
  assumes "converts env f" and "0 < i"
  shows "convertStep env i f doc =
           Inr \<lparr> pages = pages doc @ [[drawn env f]], currentPage = length (pages doc) \<rparr>"
  using assms(2) by (simp add: convertStep_ok [OF assms(1)] addPage_def)

lemma convertLoop_later:
  assumes "0 < i" and "\<forall>f \<in> set fs. converts env f"
  shows "convertLoop env i fs doc =
           Inr (if fs = [] then doc
                else \<lparr> pages = pages doc @ map (\<lambda>f. [drawn env f]) fs,
                       currentPage = length (pages doc) + length fs - 1 \<rparr>)"
  using assms
proof (induction fs arbitrary: i doc)
  case Nil
  show ?case by simp
next
  case (Cons f rest)
  have f: "converts env f" and r: "\<forall>f \<in> set rest. converts env f"
    using Cons.prems(2) by simp_all
  show ?case
    using Cons.IH [of "i + 1", OF _ r] Cons.prems(1)
    by (simp add: convertStep_later [OF f Cons.prems(1)])
qed

lemma convertImagesToPdf_ok:
  assumes "imgs \<noteq> []" and "\<forall>f \<in> set imgs. converts env f"
  shows "convertImagesToPdf env imgs =
           Inr \<lparr> pages = map (\<lambda>f. [drawn env f]) imgs, currentPage = length imgs - 1 \<rparr>"
proof -
  from assms(1) obtain f rest where fs: "imgs = f # rest" by (cases imgs) auto
  have f: "converts env f" and r: "\<forall>f \<in> set rest. converts env f"
    using assms(2) fs by simp_all
  have s: "convertStep env 0 f new_jsPDF = Inr \<lparr> pages = [[drawn env f]], currentPage = 0 \<rparr>"
    by (simp add: convertStep_ok [OF f] new_jsPDF_def)
  show ?thesis
    unfolding convertImagesToPdf_def fs
    using convertLoop_later [of 1 rest env, OF _ r]
    by (simp add: s)
qed

text \<open>
  C5. For a non-empty list of image files, each of which the browser reads and loads and
  jsPDF supports, \<open>convertImagesToPdf\<close> returns a document with as many pages as images;
  page \<open>i\<close> holds one image, that of file \<open>i\<close>, at the origin. A new document has one page, so
  every image but the first got a page added for it.
\<close>

theorem convertImagesToPdf_pages:
  assumes "imgs \<noteq> []"
    and "\<forall>f \<in> set imgs. \<exists>u img. readAsDataURL env f = Some u \<and> imageOnload env u = Some img
                                 \<and> addImageSupported env u"
  shows "\<exists>doc. convertImagesToPdf env imgs = Inr doc
           \<and> length (pages doc) = length imgs
           \<and> (\<forall>i < length imgs. \<exists>p. pages doc ! i = [p]
                  \<and> readAsDataURL env (imgs ! i) = Some (imageData p)
                  \<and> x_pos p = 0 \<and> y_pos p = 0)"
proof -
  have c: "\<forall>f \<in> set imgs. converts env f"
    using assms(2) by (fastforce simp: converts_def)
  have d: "readAsDataURL env (imgs ! i) = Some (imageData (drawn env (imgs ! i)))
           \<and> x_pos (drawn env (imgs ! i)) = 0 \<and> y_pos (drawn env (imgs ! i)) = 0"
    if "i < length imgs" for i
  proof -
    from that assms(2) obtain u where "readAsDataURL env (imgs ! i) = Some u"
      using nth_mem by blast
    then show ?thesis by (simp add: drawn_def Let_def)
  qed
  show ?thesis
    using d by (simp add: convertImagesToPdf_ok [OF assms(1) c])
qed

theorem convertImagesToPdf_pages_witness:
  "(\<exists>doc. convertImagesToPdf example_env [photo ''a.jpg''] = Inr doc \<and> length (pages doc) = 1)
   \<and> (\<exists>doc. convertImagesToPdf example_env [photo ''a.jpg'', photo ''b.jpg'', photo ''c.jpg'']
               = Inr doc
            \<and> length (pages doc) = 3
            \<and> map (map imageData) (pages doc) =
                 [[''data:image/jpeg;base64,a.jpg''], [''data:image/jpeg;base64,b.jpg''],
                  [''data:image/jpeg;base64,c.jpg'']])"
proof -
  have ok: "\<forall>f \<in> set fs. \<exists>u img. readAsDataURL example_env f = Some u
              \<and> imageOnload example_env u = Some img \<and> addImageSupported example_env u" for fs
    by (simp add: example_env_def)
  have one: "[photo ''a.jpg''] \<noteq> []" and three: "[photo ''a.jpg'', photo ''b.jpg'', photo ''c.jpg''] \<noteq> []"
    by simp_all
  from convertImagesToPdf_pages [OF one ok]
  have 1: "\<exists>doc. convertImagesToPdf example_env [photo ''a.jpg''] = Inr doc \<and> length (pages doc) = 1"
    by auto
  from convertImagesToPdf_pages [OF three ok] obtain doc
    where d: "convertImagesToPdf example_env [photo ''a.jpg'', photo ''b.jpg'', photo ''c.jpg'']
                = Inr doc"
      and l0: "length (pages doc) = length [photo ''a.jpg'', photo ''b.jpg'', photo ''c.jpg'']"
      and p: "\<forall>i < length [photo ''a.jpg'', photo ''b.jpg'', photo ''c.jpg''].
                \<exists>p. pages doc ! i = [p]
                \<and> readAsDataURL example_env
                     ([photo ''a.jpg'', photo ''b.jpg'', photo ''c.jpg''] ! i) = Some (imageData p)
                \<and> x_pos p = 0 \<and> y_pos p = 0"
    by blast
  have l: "length (pages doc) = 3" using l0 by simp
  from l obtain p0 p1 p2 where ps: "pages doc = [p0, p1, p2]"
    by (auto simp: numeral_3_eq_3 length_Suc_conv)
  have "map imageData p0 = [''data:image/jpeg;base64,a.jpg'']"
    using p [rule_format, of 0] by (auto simp: ps example_env_def photo_def)
  moreover have "map imageData p1 = [''data:image/jpeg;base64,b.jpg'']"
    using p [rule_format, of 1] by (auto simp: ps example_env_def photo_def)
  moreover have "map imageData p2 = [''data:image/jpeg;base64,c.jpg'']"
    using p [rule_format, of 2] by (auto simp: ps example_env_def photo_def)
  ultimately have m: "map (map imageData) (pages doc) =
      [[''data:image/jpeg;base64,a.jpg''], [''data:image/jpeg;base64,b.jpg''],
       [''data:image/jpeg;base64,c.jpg'']]"
    by (simp add: ps)
  have 3: "\<exists>doc. convertImagesToPdf example_env [photo ''a.jpg'', photo ''b.jpg'', photo ''c.jpg'']
               = Inr doc
            \<and> length (pages doc) = 3
            \<and> map (map imageData) (pages doc) =
                 [[''data:image/jpeg;base64,a.jpg''], [''data:image/jpeg;base64,b.jpg''],
                  [''data:image/jpeg;base64,c.jpg'']]"
    using d l m by (intro exI [of _ doc] conjI)
  show ?thesis
    using 1 3 by (rule conjI)
qed

section \<open>The rectangle an image is drawn in\<close>

lemma scaled_bounds:
  fixes a b w h :: real
  assumes "0 < a" "0 < b" "0 < w" "0 < h"
  defines "s \<equiv> min (divide_js a w) (divide_js b h)"
  shows "times_js w s \<le> a * (1 + 1 / 2 ^ 53)\<^sup>2"
    and "times_js h s \<le> b * (1 + 1 / 2 ^ 53)\<^sup>2"
    and "(1 - 1 / 2 ^ 53) * (h * times_js w s) \<le> (1 + 1 / 2 ^ 53) * (w * times_js h s)"
    and "(1 - 1 / 2 ^ 53) * (w * times_js h s) \<le> (1 + 1 / 2 ^ 53) * (h * times_js w s)"
proof -
  let ?u = "1 / 2 ^ 53 :: real"
  have u: "0 \<le> 1 + ?u" "0 \<le> 1 - ?u" by simp_all
  have aw: "0 < a / w" and bh: "0 < b / h"
    using assms(1-4) by simp_all
  have qa: "0 < divide_js a w" "divide_js a w \<le> a / w * (1 + ?u)"
    unfolding divide_js_def by (rule toDouble_pos [OF aw], rule toDouble_upper [OF aw])
  have qb: "0 < divide_js b h" "divide_js b h \<le> b / h * (1 + ?u)"
    unfolding divide_js_def by (rule toDouble_pos [OF bh], rule toDouble_upper [OF bh])
  have s: "0 < s" "s \<le> a / w * (1 + ?u)" "s \<le> b / h * (1 + ?u)"
    using qa qb by (simp_all add: s_def min_le_iff_disj)
  have ws: "0 < w * s" and hs: "0 < h * s"
    using s(1) assms(3,4) by simp_all
  have W: "times_js w s \<le> w * s * (1 + ?u)" "w * s * (1 - ?u) \<le> times_js w s"
    unfolding times_js_def by (rule toDouble_upper [OF ws], rule toDouble_lower [OF ws])
  have H: "times_js h s \<le> h * s * (1 + ?u)" "h * s * (1 - ?u) \<le> times_js h s"
    unfolding times_js_def by (rule toDouble_upper [OF hs], rule toDouble_lower [OF hs])
  have "w * s \<le> w * (a / w * (1 + ?u))"
    using s(2) assms(3) by (intro mult_left_mono) simp_all
  also have "\<dots> = a * (1 + ?u)"
    using assms(3) by simp
  finally have "w * s * (1 + ?u) \<le> a * (1 + ?u) * (1 + ?u)"
    using u(1) by (intro mult_right_mono)
  with W(1) have "times_js w s \<le> a * (1 + ?u) * (1 + ?u)"
    by (rule order_trans)
  also have "\<dots> = a * (1 + ?u)\<^sup>2"
    by (simp only: power2_eq_square mult.assoc)
  finally show "times_js w s \<le> a * (1 + 1 / 2 ^ 53)\<^sup>2" .
  have "h * s \<le> h * (b / h * (1 + ?u))"
    using s(3) assms(4) by (intro mult_left_mono) simp_all
  also have "\<dots> = b * (1 + ?u)"
    using assms(4) by simp
  finally have "h * s * (1 + ?u) \<le> b * (1 + ?u) * (1 + ?u)"
    using u(1) by (intro mult_right_mono)
  with H(1) have "times_js h s \<le> b * (1 + ?u) * (1 + ?u)"
    by (rule order_trans)
  also have "\<dots> = b * (1 + ?u)\<^sup>2"
    by (simp only: power2_eq_square mult.assoc)
  finally show "times_js h s \<le> b * (1 + 1 / 2 ^ 53)\<^sup>2" .
  have "(1 - ?u) * (h * times_js w s) \<le> (1 - ?u) * (h * (w * s * (1 + ?u)))"
    using W(1) u(2) assms(4) by (intro mult_left_mono) simp_all
  also have "\<dots> = (1 + ?u) * (w * (h * s * (1 - ?u)))"
    by (simp add: algebra_simps)
  also have "\<dots> \<le> (1 + ?u) * (w * times_js h s)"
    using H(2) u(1) assms(3) by (intro mult_left_mono) simp_all
  finally show "(1 - 1 / 2 ^ 53) * (h * times_js w s) \<le> (1 + 1 / 2 ^ 53) * (w * times_js h s)" .
  have "(1 - ?u) * (w * times_js h s) \<le> (1 - ?u) * (w * (h * s * (1 + ?u)))"
    using H(1) u(2) assms(3) by (intro mult_left_mono) simp_all
  also have "\<dots> = (1 + ?u) * (h * (w * s * (1 - ?u)))"
    by (simp add: algebra_simps)
  also have "\<dots> \<le> (1 + ?u) * (h * times_js w s)"
    using W(2) u(1) assms(4) by (intro mult_left_mono) simp_all
  finally show "(1 - 1 / 2 ^ 53) * (w * times_js h s) \<le> (1 + 1 / 2 ^ 53) * (h * times_js w s)" .
qed

lemma A4_pos: "0 < A4_WIDTH" "0 < A4_HEIGHT"
  by (simp_all add: A4_WIDTH_value A4_HEIGHT_value)

text \<open>
  C4, as stated, fails: for an image of 285 by 1 pixels the scaled width is one unit in the
  last place above the page width.
\<close>

theorem convertStep_width_counterexample:
  "convertImagesToPdf wide_env [photo ''wide.jpg'']
     = Inr \<lparr> pages = [[\<lparr> imageData = ''data:image/jpeg;base64,wide.jpg'', format = ''JPEG'',
                           x_pos = 0, y_pos = 0,
                           w_img = 5236107467934401 / 2 ^ 43,
                           h_img = 4703310567688444 / 2 ^ 51 \<rparr>]],
             currentPage = 0 \<rparr>
   \<and> A4_WIDTH = 5236107467934400 / 2 ^ 43
   \<and> A4_WIDTH < 5236107467934401 / 2 ^ 43"
proof -
  have s: "min (divide_js A4_WIDTH 285) (divide_js A4_HEIGHT 1) = 4703310567688444 / 2 ^ 51"
    unfolding scale_285 scale_1 by simp
  have "drawn wide_env (photo ''wide.jpg'')
      = \<lparr> imageData = ''data:image/jpeg;base64,wide.jpg'', format = ''JPEG'', x_pos = 0, y_pos = 0,
          w_img = times_js 285 (min (divide_js A4_WIDTH 285) (divide_js A4_HEIGHT 1)),
          h_img = times_js 1 (min (divide_js A4_WIDTH 285) (divide_js A4_HEIGHT 1)) \<rparr>"
    by (simp add: drawn_def wide_env_def example_env_def photo_def Let_def)
  then have d: "drawn wide_env (photo ''wide.jpg'')
      = \<lparr> imageData = ''data:image/jpeg;base64,wide.jpg'', format = ''JPEG'', x_pos = 0, y_pos = 0,
          w_img = 5236107467934401 / 2 ^ 43, h_img = 4703310567688444 / 2 ^ 51 \<rparr>"
    unfolding s width_285 height_1 .
  have c: "\<forall>f \<in> set [photo ''wide.jpg'']. converts wide_env f"
    by (simp add: converts_def wide_env_def example_env_def)
  have n: "[photo ''wide.jpg''] \<noteq> []" by simp
  have "convertImagesToPdf wide_env [photo ''wide.jpg'']
      = Inr \<lparr> pages = [[drawn wide_env (photo ''wide.jpg'')]], currentPage = 0 \<rparr>"
    using convertImagesToPdf_ok [OF n c] by simp
  then have 1: "convertImagesToPdf wide_env [photo ''wide.jpg'']
     = Inr \<lparr> pages = [[\<lparr> imageData = ''data:image/jpeg;base64,wide.jpg'', format = ''JPEG'',
                           x_pos = 0, y_pos = 0,
                           w_img = 5236107467934401 / 2 ^ 43,
                           h_img = 4703310567688444 / 2 ^ 51 \<rparr>]],
             currentPage = 0 \<rparr>"
    unfolding d .
  have 2: "A4_WIDTH < 5236107467934401 / 2 ^ 43"
    unfolding A4_WIDTH_value by simp
  show ?thesis
    using 1 A4_WIDTH_value 2 by (intro conjI)
qed

text \<open>
  C4, amended. For an image of positive width \<open>w\<close> and height \<open>h\<close>, both dimensions are
  multiplied by the one factor \<open>s = min(A4_WIDTH / w, A4_HEIGHT / h)\<close>, each operation rounded
  to a double. The scaled width \<open>w'\<close> and height \<open>h'\<close> are at most the page width and height
  up to the two roundings, that is at most \<open>A4_WIDTH * (1 + 1 / 2 ^ 53)\<^sup>2\<close> and
  \<open>A4_HEIGHT * (1 + 1 / 2 ^ 53)\<^sup>2\<close>, and the aspect ratio is kept up to rounding:
  \<open>(1 - 1 / 2 ^ 53) * (h * w')\<close> is at most \<open>(1 + 1 / 2 ^ 53) * (w * h')\<close>, and the same with
  width and height exchanged.
\<close>

theorem convertStep_scaling:
  assumes "readAsDataURL env f = Some u" and "imageOnload env u = Some img"
    and "0 < width img" "width img < 2 ^ 53" and "0 < height img" "height img < 2 ^ 53"
  shows "\<exists>s p. convertStep env i f doc = addImage env (if 0 < i then addPage doc else doc) p
           \<and> s = min (divide_js A4_WIDTH (real (width img))) (divide_js A4_HEIGHT (real (height img)))
           \<and> w_img p = times_js (real (width img)) s
           \<and> h_img p = times_js (real (height img)) s
           \<and> w_img p \<le> A4_WIDTH * (1 + 1 / 2 ^ 53)\<^sup>2
           \<and> h_img p \<le> A4_HEIGHT * (1 + 1 / 2 ^ 53)\<^sup>2
           \<and> (1 - 1 / 2 ^ 53) * (real (height img) * w_img p)
               \<le> (1 + 1 / 2 ^ 53) * (real (width img) * h_img p)
           \<and> (1 - 1 / 2 ^ 53) * (real (width img) * h_img p)
               \<le> (1 + 1 / 2 ^ 53) * (real (height img) * w_img p)"
proof -
  let ?w = "real (width img)" and ?h = "real (height img)"
  let ?s = "min (divide_js A4_WIDTH ?w) (divide_js A4_HEIGHT ?h)"
  let ?p = "\<lparr> imageData = u, format = ''JPEG'', x_pos = 0, y_pos = 0,
              w_img = times_js ?w ?s, h_img = times_js ?h ?s \<rparr>"
  have c: "convertStep env i f doc = addImage env (if 0 < i then addPage doc else doc) ?p"
    by (simp add: convertStep_def readFileAsDataURL_def loadImage_def assms(1,2) Let_def)
  have w: "0 < ?w" and h: "0 < ?h"
    using assms(3,5) by simp_all
  note b = scaled_bounds [OF A4_pos w h]
  show ?thesis
    using c b by (intro exI [of _ ?s] exI [of _ ?p]) simp
qed

theorem convertStep_scaling_witness:
  "\<exists>s p. convertStep example_env 0 (photo ''a.jpg'') new_jsPDF = addImage example_env new_jsPDF p
     \<and> s = min (divide_js A4_WIDTH 1000) (divide_js A4_HEIGHT 2000)
     \<and> w_img p = times_js 1000 s
     \<and> h_img p = times_js 2000 s
     \<and> w_img p \<le> A4_WIDTH * (1 + 1 / 2 ^ 53)\<^sup>2
     \<and> h_img p \<le> A4_HEIGHT * (1 + 1 / 2 ^ 53)\<^sup>2
     \<and> (1 - 1 / 2 ^ 53) * (2000 * w_img p) \<le> (1 + 1 / 2 ^ 53) * (1000 * h_img p)
     \<and> (1 - 1 / 2 ^ 53) * (1000 * h_img p) \<le> (1 + 1 / 2 ^ 53) * (2000 * w_img p)"
proof -
  let ?img = "\<lparr> width = 1000, height = 2000 \<rparr>"
  have r: "readAsDataURL example_env (photo ''a.jpg'') = Some ''data:image/jpeg;base64,a.jpg''"
    by (simp add: example_env_def photo_def)
  have l: "imageOnload example_env ''data:image/jpeg;base64,a.jpg'' = Some ?img"
    by (simp add: example_env_def)
  have d: "0 < width ?img" "width ?img < 2 ^ 53" "0 < height ?img" "height ?img < 2 ^ 53"
    by simp_all
  from convertStep_scaling [OF r l d, of 0 new_jsPDF] obtain s p
    where "convertStep example_env 0 (photo ''a.jpg'') new_jsPDF
             = addImage example_env (if (0::nat) < 0 then addPage new_jsPDF else new_jsPDF) p"
      and "s = min (divide_js A4_WIDTH (real (width ?img))) (divide_js A4_HEIGHT (real (height ?img)))"
      and "w_img p = times_js (real (width ?img)) s"
      and "h_img p = times_js (real (height ?img)) s"
      and "w_img p \<le> A4_WIDTH * (1 + 1 / 2 ^ 53)\<^sup>2"
      and "h_img p \<le> A4_HEIGHT * (1 + 1 / 2 ^ 53)\<^sup>2"
      and "(1 - 1 / 2 ^ 53) * (real (height ?img) * w_img p)
             \<le> (1 + 1 / 2 ^ 53) * (real (width ?img) * h_img p)"
      and "(1 - 1 / 2 ^ 53) * (real (width ?img) * h_img p)
             \<le> (1 + 1 / 2 ^ 53) * (real (height ?img) * w_img p)"
    by blast
  then show ?thesis
    by (intro exI [of _ s] exI [of _ p]) simp
qed

section \<open>The script markers of the PDF scan\<close>

lemma scan_reason:
  "type f = ''application/pdf'' \<Longrightarrow> \<not> scanPDF f \<Longrightarrow>
     \<not> isValid (validateFile FileValidator f)
     \<and> ''File failed security scan'' \<in> set (errors (validateFile FileValidator f))"
  by (simp add: validateFile_isValid validateFile_errors scanForMalware_def)

lemma utf8_decode_ascii: "\<forall>b \<in> set bs. b < 128 \<Longrightarrow> utf8_decode bs = bs"
  by (induction bs) simp_all

lemma codeUnitsOf_ascii: "\<forall>b \<in> set bs. b < 128 \<Longrightarrow> concat (map codeUnitsOf bs) = bs"
  by (induction bs) (simp_all add: codeUnitsOf_def)

lemma unat_bytesOf: "map unat (bytesOf s) = str s"
proof -
  have "unat (of_nat (of_char c) :: 8 word) = of_char c" for c
    by (simp add: unat_of_nat)
  then show ?thesis by (simp add: bytesOf_def str_def)
qed

lemma decode_ascii:
  assumes "\<forall>b \<in> set bs. b < 128"
  shows "decode bs = bs"
proof -
  have "take 3 bs \<noteq> [0xEF, 0xBB, 0xBF]" "take 2 bs \<noteq> [0xFE, 0xFF]" "take 2 bs \<noteq> [0xFF, 0xFE]"
    using assms by (cases bs; fastforce)+
  then show ?thesis
    using assms by (simp add: decode_def utf8_decode_ascii)
qed

lemma readAsText_ascii:
  assumes "\<forall>c \<in> set s. (of_char c :: nat) < 128" and "length s \<le> n"
  shows "readAsText (slice_blob 0 n (bytesOf s)) = str s"
proof -
  have a: "\<forall>b \<in> set (str s). b < 128"
    using assms(1) by (simp add: str_def)
  have "slice_blob 0 n (bytesOf s) = bytesOf s"
    using assms(2) by (simp add: slice_blob_def bytesOf_def)
  then show ?thesis
    by (simp add: readAsText_def unat_bytesOf decode_ascii [OF a] codeUnitsOf_ascii [OF a])
qed

text \<open>
  C3 says that every PDF file whose first 100 KiB contain \<open>/JavaScript\<close>, \<open>/JS\<close> or \<open>/AA\<close> fails
  the content scan and is rejected with the scan's reason. The scan does not do that. Its
  three expressions, introduced as the check for JavaScript and for auto actions, each ask
  for a further slash after the marker, so the action dictionary
  \<open><< /JS (app.alert(1)) /S /JavaScript >>\<close> passes the scan and the file is accepted with no
  reason, while the same dictionary with its two entries in the other order,
  \<open><< /S /JavaScript /JS (app.alert(1)) >>\<close>, is rejected with the scan's reason.
\<close>

theorem scanPDF_accepts_script_marker:
  "type pdf_with_JS = ''application/pdf''
   \<and> includes_js (readAsText (slice_blob 0 (1024 * 100) (bytes pdf_with_JS))) (str ''/JS'')
   \<and> includes_js (readAsText (slice_blob 0 (1024 * 100) (bytes pdf_with_JS))) (str ''/JavaScript'')
   \<and> scanPDF pdf_with_JS
   \<and> isValid (validateFile FileValidator pdf_with_JS)
   \<and> errors (validateFile FileValidator pdf_with_JS) = []
   \<and> type pdf_with_marker = ''application/pdf''
   \<and> \<not> scanPDF pdf_with_marker
   \<and> errors (validateFile FileValidator pdf_with_marker) = [''File failed security scan'']"
proof -
  have t: "readAsText (slice_blob 0 (1024 * 100) (bytes pdf_with_JS))
             = str ''%PDF-1.4 << /JS (app.alert(1)) /S /JavaScript >> %%EOF''"
    unfolding pdf_with_JS_def by (simp add: readAsText_ascii)
  have i1: "includes_js (str ''%PDF-1.4 << /JS (app.alert(1)) /S /JavaScript >> %%EOF'') (str ''/JS'')"
    by (simp add: str_def)
  have i2: "includes_js (str ''%PDF-1.4 << /JS (app.alert(1)) /S /JavaScript >> %%EOF'')
              (str ''/JavaScript'')"
    by (simp add: str_def)
  have i3: "includes_js (str ''%PDF-1.4 << /JS (app.alert(1)) /S /JavaScript >> %%EOF'') (str ''%PDF'')"
    by (simp add: str_def)
  have i4: "includes_js (str ''%PDF-1.4 << /JS (app.alert(1)) /S /JavaScript >> %%EOF'') (str ''%%EOF'')"
    by (simp add: str_def)
  have r1: "\<not> regex_test re_JavaScript (str ''%PDF-1.4 << /JS (app.alert(1)) /S /JavaScript >> %%EOF'')"
    by (simp add: str_def re_JavaScript_def seq_def lit_i_def canonicalize_def isWhiteSpace_def)
  have r2: "\<not> regex_test re_JS (str ''%PDF-1.4 << /JS (app.alert(1)) /S /JavaScript >> %%EOF'')"
    by (simp add: str_def re_JS_def seq_def lit_i_def canonicalize_def isWhiteSpace_def)
  have r3: "\<not> regex_test re_AA (str ''%PDF-1.4 << /JS (app.alert(1)) /S /JavaScript >> %%EOF'')"
    by (simp add: str_def re_AA_def seq_def lit_i_def canonicalize_def isWhiteSpace_def)
  have s: "scanPDF pdf_with_JS"
    unfolding scanPDF_def Let_def t using i3 i4 r1 r2 r3 by simp
  have c1: "\<not> size_File pdf_with_JS > 104857600"
    by (simp add: size_File_def pdf_with_JS_def bytesOf_def)
  have l: "toLowerCase ''form.pdf'' = ''form.pdf''"
    by (simp add: toLowerCase_def toLowerCase_char_def)
  have c2: "isAllowedExtension (name pdf_with_JS)"
    by (simp add: pdf_with_JS_def isAllowedExtension_def l pop_def allowedExtensions_def)
  have c3: "isAllowedMimeType FileValidator (type pdf_with_JS)"
    by (simp add: pdf_with_JS_def isAllowedMimeType_def FileValidator_def)
  have c4: "validateMagicNumbers pdf_with_JS"
    by (simp add: pdf_with_JS_def validateMagicNumbers_def slice_blob_def bytesOf_def Let_def
        padStart_def digitChar_simps toUpperCase_def toUpperCase_char_def char_of_eq_iff
        magicNumbers_def startsWith_def)
  have c5: "XSSProtection_validateFile pdf_with_JS"
    by (simp add: pdf_with_JS_def XSSProtection_validateFile_def l dangerousExtensions_def
        endsWith_def suffix_to_prefix)
  have c6: "scanForMalware pdf_with_JS"
    using s by (simp add: scanForMalware_def)
  have e: "errors (validateFile FileValidator pdf_with_JS) = []"
    using c1 c2 c3 c4 c5 c6 by (simp add: validateFile_errors)
  have y: "type pdf_with_JS = ''application/pdf''"
    by (simp add: pdf_with_JS_def)
  have t': "readAsText (slice_blob 0 (1024 * 100) (bytes pdf_with_marker))
             = str ''%PDF-1.4 << /S /JavaScript /JS (app.alert(1)) >> %%EOF''"
    unfolding pdf_with_marker_def by (simp add: readAsText_ascii)
  have r': "regex_test re_JavaScript (str ''%PDF-1.4 << /S /JavaScript /JS (app.alert(1)) >> %%EOF'')"
    by (simp add: str_def re_JavaScript_def seq_def lit_i_def canonicalize_def isWhiteSpace_def)
  have s': "\<not> scanPDF pdf_with_marker"
    unfolding scanPDF_def Let_def t' using r' by simp
  have d1: "\<not> size_File pdf_with_marker > 104857600"
    by (simp add: size_File_def pdf_with_marker_def bytesOf_def)
  have d2: "isAllowedExtension (name pdf_with_marker)"
    by (simp add: pdf_with_marker_def isAllowedExtension_def l pop_def allowedExtensions_def)
  have d3: "isAllowedMimeType FileValidator (type pdf_with_marker)"
    by (simp add: pdf_with_marker_def isAllowedMimeType_def FileValidator_def)
  have d4: "validateMagicNumbers pdf_with_marker"
    by (simp add: pdf_with_marker_def validateMagicNumbers_def slice_blob_def bytesOf_def Let_def
        padStart_def digitChar_simps toUpperCase_def toUpperCase_char_def char_of_eq_iff
        magicNumbers_def startsWith_def)
  have d5: "XSSProtection_validateFile pdf_with_marker"
    by (simp add: pdf_with_marker_def XSSProtection_validateFile_def l dangerousExtensions_def
        endsWith_def suffix_to_prefix)
  have y': "type pdf_with_marker = ''application/pdf''"
    by (simp add: pdf_with_marker_def)
  have d6: "\<not> scanForMalware pdf_with_marker"
    using s' y' by (simp add: scanForMalware_def)
  have e': "errors (validateFile FileValidator pdf_with_marker) = [''File failed security scan'']"
    using d1 d2 d3 d4 d5 d6 by (simp add: validateFile_errors)
  show ?thesis
    unfolding t using y i1 i2 s e y' s' e' by (simp add: validateFile_isValid)
qed

section \<open>ASCII text and the bytes it was decoded from\<close>

lemma mod_window: "k * m \<le> b \<Longrightarrow> b < k * m + m \<Longrightarrow> b mod m = b - k * (m::nat)"
proof -
  assume a: "k * m \<le> b" and c: "b < k * m + m"
  have "b mod m = ((b - k * m) + k * m) mod m" using a by simp
  also have "\<dots> = (b - k * m) mod m" by simp
  also have "\<dots> = b - k * m" using a c by (intro mod_less) linarith
  finally show ?thesis .
qed

lemma cp2_high:
  assumes "194 \<le> b" "b \<le> 223"
  shows "(128::nat) \<le> b mod 32 * 64 + c1 mod 64"
proof -
  have "b mod 32 = b - 6 * 32" using assms by (intro mod_window) simp_all
  then have "2 \<le> b mod 32" using assms by simp
  then show ?thesis by linarith
qed

lemma cp3_high:
  assumes "224 \<le> b" "b \<le> 239" "(if b = 224 then 160 else 128) \<le> c1" "c1 \<le> 191"
  shows "(128::nat) \<le> (b mod 16 * 64 + c1 mod 64) * 64 + c2 mod 64"
proof (cases "b = 224")
  case True
  then have "160 \<le> c1" using assms(3) by simp
  then have "c1 mod 64 = c1 - 2 * 64" using assms(4) by (intro mod_window) simp_all
  then have "32 \<le> c1 mod 64" using \<open>160 \<le> c1\<close> by simp
  then show ?thesis by (simp add: distrib_right)
next
  case False
  have "b mod 16 = b - 14 * 16" using assms(1,2) by (intro mod_window) simp_all
  then have "1 \<le> b mod 16" using False assms(1) by simp
  then have "64 \<le> b mod 16 * 64" by simp
  then show ?thesis by (simp add: distrib_right)
qed

lemma cp4_high:
  assumes "240 \<le> b" "b \<le> 244" "(if b = 240 then 144 else 128) \<le> c1" "c1 \<le> 191"
  shows "(128::nat) \<le> ((b mod 8 * 64 + c1 mod 64) * 64 + c2 mod 64) * 64 + c3 mod 64"
proof (cases "b = 240")
  case True
  then have "144 \<le> c1" using assms(3) by simp
  then have "c1 mod 64 = c1 - 2 * 64" using assms(4) by (intro mod_window) simp_all
  then have "16 \<le> c1 mod 64" using \<open>144 \<le> c1\<close> by simp
  then show ?thesis by (simp add: distrib_right)
next
  case False
  have "b mod 8 = b - 30 * 8" using assms(1,2) by (intro mod_window) simp_all
  then have "1 \<le> b mod 8" using False assms(1) by simp
  then have "64 \<le> b mod 8 * 64" by simp
  then show ?thesis by (simp add: distrib_right)
qed

lemma utf8_decode_step:
  assumes "128 \<le> b"
  shows "\<exists>cp rest. utf8_decode (b # bs) = cp # utf8_decode rest \<and> suffix rest bs \<and> 128 \<le> cp"
proof -
  define Q where "Q out \<longleftrightarrow> (\<exists>cp rest. out = cp # utf8_decode rest \<and> suffix rest bs \<and> 128 \<le> cp)"
    for out
  have Q1: "Q (cp # utf8_decode rest)" if "suffix rest bs" "128 \<le> cp" for cp rest
    using that by (auto simp: Q_def)
  have Q0: "Q [0xFFFD]"
    unfolding Q_def by (rule exI [where x = "0xFFFD"], rule exI [where x = "[]"]) simp
  have QF: "Q (0xFFFD # utf8_decode rest)" if "suffix rest bs" for rest
    using that by (intro Q1) simp_all
  consider (two) "0xC2 \<le> b" "b \<le> 0xDF" | (three) "0xE0 \<le> b" "b \<le> 0xEF"
    | (four) "0xF0 \<le> b" "b \<le> 0xF4"
    | (other) "\<not> (0xC2 \<le> b \<and> b \<le> 0xDF)" "\<not> (0xE0 \<le> b \<and> b \<le> 0xEF)"
        "\<not> (0xF0 \<le> b \<and> b \<le> 0xF4)"
    by blast
  then have "Q (utf8_decode (b # bs))"
  proof cases
    case two
    show ?thesis
    proof (cases bs)
      case Nil
      show ?thesis
        unfolding Nil using assms two Q0
        by (subst utf8_decode.simps(2)) (simp del: utf8_decode.simps)
    next
      case (Cons c1 r1)
      have s: "suffix r1 bs" "suffix bs bs" by (simp_all add: Cons suffix_ConsI)
      have e: "utf8_decode (b # bs) =
          (if 0x80 \<le> c1 \<and> c1 \<le> 0xBF
           then ((b mod 32) * 64 + c1 mod 64) # utf8_decode r1
           else 0xFFFD # utf8_decode bs)"
        unfolding Cons using assms two
        by (subst utf8_decode.simps(2)) (simp del: utf8_decode.simps)
      show ?thesis
        unfolding e using s two by (simp add: Q1 QF cp2_high)
    qed
  next
    case three
    show ?thesis
    proof (cases bs)
      case Nil
      show ?thesis
        unfolding Nil using assms three Q0
        by (subst utf8_decode.simps(2)) (simp del: utf8_decode.simps)
    next
      case (Cons c1 r1)
      have s: "suffix r1 bs" "suffix bs bs" by (simp_all add: Cons suffix_ConsI)
      show ?thesis
      proof (cases r1)
        case Nil
        have e: "utf8_decode (b # bs) =
            (if (if b = 0xE0 then 0xA0 else 0x80) \<le> c1 \<and> c1 \<le> (if b = 0xED then 0x9F else 0xBF)
             then [0xFFFD] else 0xFFFD # utf8_decode bs)"
          unfolding Cons Nil using assms three
          by (subst utf8_decode.simps(2)) (simp del: utf8_decode.simps)
        show ?thesis
          unfolding e using s by (simp add: Q0 QF)
      next
        case r1: (Cons c2 r2)
        have s2: "suffix r2 bs" by (simp add: Cons r1 suffix_ConsI)
        have e: "utf8_decode (b # bs) =
            (if (if b = 0xE0 then 0xA0 else 0x80) \<le> c1 \<and> c1 \<le> (if b = 0xED then 0x9F else 0xBF)
             then (if 0x80 \<le> c2 \<and> c2 \<le> 0xBF
                   then (((b mod 16) * 64 + c1 mod 64) * 64 + c2 mod 64) # utf8_decode r2
                   else 0xFFFD # utf8_decode r1)
             else 0xFFFD # utf8_decode bs)"
          unfolding Cons r1 using assms three
          by (subst utf8_decode.simps(2)) (simp del: utf8_decode.simps)
        have h: "128 \<le> ((b mod 16) * 64 + c1 mod 64) * 64 + c2 mod 64"
          if "(if b = 0xE0 then 0xA0 else 0x80) \<le> c1" "c1 \<le> (if b = 0xED then 0x9F else 0xBF)"
          using three that by (intro cp3_high) (simp_all split: if_splits)
        show ?thesis
          unfolding e using s s2 h by (simp add: Q1 QF)
      qed
    qed
  next
    case four
    show ?thesis
    proof (cases bs)
      case Nil
      show ?thesis
        unfolding Nil using assms four Q0
        by (subst utf8_decode.simps(2)) (simp del: utf8_decode.simps)
    next
      case (Cons c1 r1)
      have s: "suffix r1 bs" "suffix bs bs" by (simp_all add: Cons suffix_ConsI)
      show ?thesis
      proof (cases r1)
        case Nil
        have e: "utf8_decode (b # bs) =
            (if (if b = 0xF0 then 0x90 else 0x80) \<le> c1 \<and> c1 \<le> (if b = 0xF4 then 0x8F else 0xBF)
             then [0xFFFD] else 0xFFFD # utf8_decode bs)"
          unfolding Cons Nil using assms four
          by (subst utf8_decode.simps(2)) (simp del: utf8_decode.simps)
        show ?thesis
          unfolding e using s by (simp add: Q0 QF)
      next
        case r1: (Cons c2 r2)
        have s2: "suffix r2 bs" by (simp add: Cons r1 suffix_ConsI)
        show ?thesis
        proof (cases r2)
          case Nil
          have e: "utf8_decode (b # bs) =
              (if (if b = 0xF0 then 0x90 else 0x80) \<le> c1 \<and> c1 \<le> (if b = 0xF4 then 0x8F else 0xBF)
               then (if 0x80 \<le> c2 \<and> c2 \<le> 0xBF then [0xFFFD] else 0xFFFD # utf8_decode r1)
               else 0xFFFD # utf8_decode bs)"
            unfolding Cons r1 Nil using assms four
            by (subst utf8_decode.simps(2)) (simp del: utf8_decode.simps)
          show ?thesis
            unfolding e using s by (simp add: Q0 QF)
        next
          case r2: (Cons c3 r3)
          have s3: "suffix r3 bs" by (simp add: Cons r1 r2 suffix_ConsI)
          have e: "utf8_decode (b # bs) =
              (if (if b = 0xF0 then 0x90 else 0x80) \<le> c1 \<and> c1 \<le> (if b = 0xF4 then 0x8F else 0xBF)
               then (if 0x80 \<le> c2 \<and> c2 \<le> 0xBF
                     then (if 0x80 \<le> c3 \<and> c3 \<le> 0xBF
                           then ((((b mod 8) * 64 + c1 mod 64) * 64 + c2 mod 64) * 64 + c3 mod 64)
                                  # utf8_decode r3
                           else 0xFFFD # utf8_decode r2)
                     else 0xFFFD # utf8_decode r1)
               else 0xFFFD # utf8_decode bs)"
            unfolding Cons r1 r2 using assms four
            by (subst utf8_decode.simps(2)) (simp del: utf8_decode.simps)
          have h: "128 \<le> (((b mod 8) * 64 + c1 mod 64) * 64 + c2 mod 64) * 64 + c3 mod 64"
            if "(if b = 0xF0 then 0x90 else 0x80) \<le> c1" "c1 \<le> (if b = 0xF4 then 0x8F else 0xBF)"
            using four that by (intro cp4_high) (simp_all split: if_splits)
          show ?thesis
            unfolding e using s s2 s3 h by (simp add: Q1 QF)
        qed
      qed
    qed
  next
    case other
    have "utf8_decode (b # bs) = 0xFFFD # utf8_decode bs"
      using assms other by (subst utf8_decode.simps(2)) (auto simp del: utf8_decode.simps)
    then show ?thesis by (simp add: QF)
  qed
  then show ?thesis by (simp add: Q_def)
qed

lemma includes_js_sublist: "includes_js t s \<longleftrightarrow> sublist s t"
  by (induction t) (simp_all add: sublist_Cons_right)

lemma codeUnitsOf_high:
  "128 \<le> cp \<Longrightarrow> codeUnitsOf cp \<noteq> [] \<and> (\<forall>u \<in> set (codeUnitsOf cp). 128 \<le> u)"
  by (simp add: codeUnitsOf_def)

lemma text_step_low:
  "b < 128 \<Longrightarrow> concat (map codeUnitsOf (utf8_decode (b # bs)))
                 = b # concat (map codeUnitsOf (utf8_decode bs))"
  by (simp add: codeUnitsOf_def)

lemma text_step_high:
  assumes "128 \<le> b"
  shows "\<exists>out rest. concat (map codeUnitsOf (utf8_decode (b # bs)))
                      = out @ concat (map codeUnitsOf (utf8_decode rest))
           \<and> suffix rest bs \<and> out \<noteq> [] \<and> (\<forall>u \<in> set out. 128 \<le> u)"
proof -
  from utf8_decode_step [OF assms, of bs] obtain cp rest
    where e: "utf8_decode (b # bs) = cp # utf8_decode rest" and s: "suffix rest bs"
      and c: "128 \<le> cp"
    by blast
  have "concat (map codeUnitsOf (utf8_decode (b # bs)))
          = codeUnitsOf cp @ concat (map codeUnitsOf (utf8_decode rest))"
    unfolding e by simp
  then show ?thesis
    using s codeUnitsOf_high [OF c] by blast
qed

lemma text_prefix_ascii:
  "\<forall>x \<in> set s. x < 128 \<Longrightarrow> prefix s (concat (map codeUnitsOf (utf8_decode bs)))
     \<Longrightarrow> prefix s bs"
proof (induction s arbitrary: bs)
  case Nil
  show ?case by simp
next
  case (Cons x s)
  show ?case
  proof (cases bs)
    case Nil
    then show ?thesis using Cons.prems(2) by simp
  next
    case bs: (Cons b bs')
    show ?thesis
    proof (cases "b < 128")
      case True
      have "prefix (x # s) (b # concat (map codeUnitsOf (utf8_decode bs')))"
        using Cons.prems(2) unfolding bs text_step_low [OF True] .
      then have "x = b" and "prefix s (concat (map codeUnitsOf (utf8_decode bs')))"
        by simp_all
      then show ?thesis
        using Cons.IH [of bs'] Cons.prems(1) by (simp add: bs)
    next
      case False
      then have "128 \<le> b" by simp
      from text_step_high [OF this, of bs'] obtain out rest
        where e: "concat (map codeUnitsOf (utf8_decode (b # bs')))
                    = out @ concat (map codeUnitsOf (utf8_decode rest))"
          and o: "out \<noteq> []" "\<forall>u \<in> set out. 128 \<le> u"
        by blast
      from o(1) obtain o1 os where out: "out = o1 # os" by (cases out) auto
      have "prefix (x # s) (o1 # os @ concat (map codeUnitsOf (utf8_decode rest)))"
        using Cons.prems(2) unfolding bs e out by simp
      then have "x = o1" by simp
      then have False using o(2) Cons.prems(1) by (simp add: out)
      then show ?thesis ..
    qed
  qed
qed

lemma text_sublist_ascii:
  assumes "s \<noteq> []" and "\<forall>x \<in> set s. x < 128"
  shows "sublist s (concat (map codeUnitsOf (utf8_decode bs))) \<Longrightarrow> sublist s bs"
proof (induction bs rule: length_induct)
  case (1 bs)
  show ?case
  proof (cases bs)
    case Nil
    then show ?thesis using "1.prems" assms(1) by simp
  next
    case bs: (Cons b bs')
    show ?thesis
    proof (cases "b < 128")
      case True
      have "sublist s (b # concat (map codeUnitsOf (utf8_decode bs')))"
        using "1.prems" unfolding bs text_step_low [OF True] .
      then consider "prefix s (b # concat (map codeUnitsOf (utf8_decode bs')))"
        | "sublist s (concat (map codeUnitsOf (utf8_decode bs')))"
        by (auto simp: sublist_Cons_right)
      then show ?thesis
      proof cases
        case 1
        then have "prefix s (concat (map codeUnitsOf (utf8_decode bs)))"
          unfolding bs text_step_low [OF True] .
        with assms(2) have "prefix s bs" by (rule text_prefix_ascii)
        then show ?thesis by (rule prefix_imp_sublist)
      next
        case 2
        moreover have "length bs' < length bs" by (simp add: bs)
        ultimately have "sublist s bs'" using "1.IH" by blast
        then show ?thesis by (simp add: bs sublist_Cons_right)
      qed
    next
      case False
      then have "128 \<le> b" by simp
      from text_step_high [OF this, of bs'] obtain out rest
        where e: "concat (map codeUnitsOf (utf8_decode (b # bs')))
                    = out @ concat (map codeUnitsOf (utf8_decode rest))"
          and r: "suffix rest bs'" and o: "\<forall>u \<in> set out. 128 \<le> u"
        by blast
      have no: "xs = []" if "set xs \<subseteq> set out" "set xs \<subseteq> set s" for xs
      proof (cases xs)
        case Nil
        then show ?thesis .
      next
        case (Cons y ys)
        then have "y \<in> set out" "y \<in> set s" using that by auto
        then show ?thesis using o assms(2) by fastforce
      qed
      have "sublist s (out @ concat (map codeUnitsOf (utf8_decode rest)))"
        using "1.prems" unfolding bs e .
      then consider "sublist s out"
        | "sublist s (concat (map codeUnitsOf (utf8_decode rest)))"
        | xs1 xs2 where "s = xs1 @ xs2" "suffix xs1 out"
            "prefix xs2 (concat (map codeUnitsOf (utf8_decode rest)))"
        by (auto simp: sublist_append)
      then have "sublist s (concat (map codeUnitsOf (utf8_decode rest)))"
      proof cases
        case 1
        then have "s = []" by (intro no) (auto dest: set_mono_sublist)
        then show ?thesis using assms(1) by simp
      next
        case 2
        then show ?thesis .
      next
        case 3
        have "xs1 = []" using 3(1,2) by (intro no) (auto dest: set_mono_suffix)
        then show ?thesis using 3(1,3) by (simp add: prefix_imp_sublist)
      qed
      moreover have "length rest < length bs"
        using r by (auto simp: bs suffix_def)
      ultimately have "sublist s rest" using "1.IH" by blast
      then have "sublist s bs'" using r by (meson sublist_order.order_trans suffix_imp_sublist)
      then show ?thesis by (simp add: bs sublist_Cons_right)
    qed
  qed
qed

lemma decode_no_bom:
  assumes "bs = [] \<or> hd bs < 128"
  shows "decode bs = utf8_decode bs"
proof -
  have "take 3 bs \<noteq> [0xEF, 0xBB, 0xBF]" "take 2 bs \<noteq> [0xFE, 0xFF]" "take 2 bs \<noteq> [0xFF, 0xFE]"
    using assms by (cases bs; fastforce)+
  then show ?thesis by (simp add: decode_def)
qed

lemma sublist_map_unat:
  fixes a b :: "8 word list"
  assumes "sublist (map unat a) (map unat b)"
  shows "sublist a b"
proof -
  from sublist_map_rightE [OF assms] obtain a' where a': "sublist a' b" "map unat a = map unat a'"
    by blast
  have "inj (unat :: 8 word \<Rightarrow> nat)" by simp
  then have "a = a'" using a'(2) by (simp add: inj_map_eq_map)
  then show ?thesis using a'(1) by simp
qed

lemma footer_missing:
  assumes "take 4 bs = [0x25, 0x50, 0x44, 0x46]"
    and "\<not> includes_js bs (bytesOf ''%%EOF'')"
  shows "\<not> includes_js (readAsText (slice_blob 0 n bs)) (str ''%%EOF'')"
proof
  assume i: "includes_js (readAsText (slice_blob 0 n bs)) (str ''%%EOF'')"
  from assms(1) obtain r where bs: "bs = 0x25 # r" by (cases bs) auto
  have "slice_blob 0 n bs = take n bs" by (simp add: slice_blob_def)
  moreover have "map unat (take n bs) = [] \<or> hd (map unat (take n bs)) < 128"
    by (cases n) (simp_all add: bs)
  ultimately have t: "readAsText (slice_blob 0 n bs)
      = concat (map codeUnitsOf (utf8_decode (map unat (take n bs))))"
    by (simp add: readAsText_def decode_no_bom)
  have "sublist (str ''%%EOF'') (concat (map codeUnitsOf (utf8_decode (map unat (take n bs)))))"
    using i unfolding t includes_js_sublist .
  moreover have "str ''%%EOF'' \<noteq> []" "\<forall>x \<in> set (str ''%%EOF''). x < 128"
    by (simp_all add: str_def)
  ultimately have "sublist (str ''%%EOF'') (map unat (take n bs))"
    using text_sublist_ascii by blast
  then have "sublist (bytesOf ''%%EOF'') (take n bs)"
    unfolding unat_bytesOf [symmetric] by (rule sublist_map_unat)
  then have "sublist (bytesOf ''%%EOF'') bs"
    by (meson sublist_order.order_trans sublist_take)
  then show False
    using assms(2) by (simp add: includes_js_sublist)
qed

text \<open>
  C2, as stated, fails: a file that starts with \<open>%PDF\<close> and has no \<open>%%EOF\<close>, declared as
  \<open>image/png\<close>, is accepted; the scan runs on files declared as \<open>application/pdf\<close> only.
\<close>

theorem scanPDF_footer_any_type_counterexample:
  "take 4 (bytes pdf_bytes_as_png) = [0x25, 0x50, 0x44, 0x46]
   \<and> \<not> includes_js (bytes pdf_bytes_as_png) (bytesOf ''%%EOF'')
   \<and> isValid (validateFile FileValidator pdf_bytes_as_png)
   \<and> ''File failed security scan'' \<notin> set (errors (validateFile FileValidator pdf_bytes_as_png))"
proof -
  have h: "take 4 (bytes pdf_bytes_as_png) = [0x25, 0x50, 0x44, 0x46]"
    by (simp add: pdf_bytes_as_png_def bytesOf_def)
  have n: "\<not> includes_js (bytes pdf_bytes_as_png) (bytesOf ''%%EOF'')"
    by (simp add: pdf_bytes_as_png_def bytesOf_def)
  have c1: "\<not> size_File pdf_bytes_as_png > 104857600"
    by (simp add: size_File_def pdf_bytes_as_png_def bytesOf_def)
  have l: "toLowerCase ''scan.png'' = ''scan.png''"
    by (simp add: toLowerCase_def toLowerCase_char_def)
  have c2: "isAllowedExtension (name pdf_bytes_as_png)"
    by (simp add: pdf_bytes_as_png_def isAllowedExtension_def l pop_def allowedExtensions_def)
  have c3: "isAllowedMimeType FileValidator (type pdf_bytes_as_png)"
    by (simp add: pdf_bytes_as_png_def isAllowedMimeType_def FileValidator_def)
  have c4: "validateMagicNumbers pdf_bytes_as_png"
    by (simp add: pdf_bytes_as_png_def validateMagicNumbers_def slice_blob_def bytesOf_def Let_def
        padStart_def digitChar_simps toUpperCase_def toUpperCase_char_def char_of_eq_iff
        magicNumbers_def startsWith_def)
  have c5: "XSSProtection_validateFile pdf_bytes_as_png"
    by (simp add: pdf_bytes_as_png_def XSSProtection_validateFile_def l dangerousExtensions_def
        endsWith_def suffix_to_prefix)
  have c6: "scanForMalware pdf_bytes_as_png"
    by (simp add: scanForMalware_def pdf_bytes_as_png_def)
  have e: "errors (validateFile FileValidator pdf_bytes_as_png) = []"
    using c1 c2 c3 c4 c5 c6 by (simp add: validateFile_errors)
  show ?thesis
    using h n e by (simp add: validateFile_isValid)
qed

text \<open>
  C2, amended. A file of declared type \<open>application/pdf\<close> whose first four bytes are
  \<open>25 50 44 46\<close> and whose bytes do not contain \<open>%%EOF\<close> is rejected with the scan's reason.
\<close>

theorem scanPDF_missing_footer:
  assumes "type f = ''application/pdf''"
    and "take 4 (bytes f) = [0x25, 0x50, 0x44, 0x46]"
    and "\<not> includes_js (bytes f) (bytesOf ''%%EOF'')"
  shows "\<not> isValid (validateFile FileValidator f)
         \<and> ''File failed security scan'' \<in> set (errors (validateFile FileValidator f))"
proof -
  have "\<not> scanPDF f"
    using footer_missing [OF assms(2,3), of "1024 * 100"]
    by (simp add: scanPDF_def Let_def)
  then show ?thesis
    using scan_reason [OF assms(1)] by simp
qed

theorem scanPDF_missing_footer_witness:
  "type truncated_pdf = ''application/pdf''
   \<and> take 4 (bytes truncated_pdf) = [0x25, 0x50, 0x44, 0x46]
   \<and> \<not> includes_js (bytes truncated_pdf) (bytesOf ''%%EOF'')
   \<and> \<not> isValid (validateFile FileValidator truncated_pdf)
   \<and> ''File failed security scan'' \<in> set (errors (validateFile FileValidator truncated_pdf))"
proof -
  have y: "type truncated_pdf = ''application/pdf''"
    by (simp add: truncated_pdf_def)
  have h: "take 4 (bytes truncated_pdf) = [0x25, 0x50, 0x44, 0x46]"
    by (simp add: truncated_pdf_def bytesOf_def)
  have n: "\<not> includes_js (bytes truncated_pdf) (bytesOf ''%%EOF'')"
    by (simp add: truncated_pdf_def bytesOf_def)
  note c = scanPDF_missing_footer [OF y h n]
  show ?thesis
    using y h n c [THEN conjunct1] c [THEN conjunct2] by (intro conjI)
qed

end
